theory Spec2Isabelle
  imports Main "HOL-Library.AList" "HOL-Library.Multiset"
begin

section \<open>Incremental inverted index over a folder of PDFs (Dile\_Scanner\_OCR.py)\<close>

text \<open>
  The script keeps two JSON files next to a folder of PDF documents:
  \<^verbatim>\<open>word_map.json\<close> (token to document to pages) and \<^verbatim>\<open>scan_cache.json\<close> (document to
  modification time). One call of \<^verbatim>\<open>build_word_map_with_cache\<close> is one run.

  Conventions of the embedding.
  \<^item> A Python dict whose insertion order is visible in the output and whose keys are
    iterated (\<^verbatim>\<open>cache\<close>) is an association list with distinct keys; \<^verbatim>\<open>cache[k] = v\<close> is
    \<open>AList.update\<close>, which keeps the position of an existing key and appends a new one, as
    Python does.
  \<^item> The index (\<^verbatim>\<open>defaultdict(set)\<close>) is a map from tokens to sets of locations; loops over
    its items whose body touches one key only are written pointwise. The key order of
    the JSON objects of \<^verbatim>\<open>word_map.json\<close> is not modelled.
  \<^item> A Python \<^verbatim>\<open>set\<close> of document names that the code iterates is a duplicate-free list.
  \<^item> An exception is a value of \<open>error\<close>; the file system, the PDF library and the OCR
    engine are inputs, collected in the record \<open>world\<close>. Reading a file that holds JSON
    does not fail.
  \<^item> A modification time is a number that is only stored and compared for equality.
  \<^item> A file is absent, or holds JSON of the shape the script writes (the cache entry
    \<^verbatim>\<open>{"modified": t}\<close> of a document is the number \<open>t\<close>), or is truncated: it holds what
    a write left that failed after \<^verbatim>\<open>open(..., "w")\<close> had emptied the file, which
    \<^verbatim>\<open>json.load\<close> refuses.
\<close>

subsection \<open>Data\<close>

type_synonym token = string
type_synonym location = "string \<times> nat"
type_synonym token_map = "token \<rightharpoonup> location set"
type_synonym timestamp = int
type_synonym cache = "(string \<times> timestamp) list"
type_synonym word_map_json = "token \<rightharpoonup> (string \<rightharpoonup> nat list)"

datatype error = KeyError | OSError | JSONDecodeError

text \<open>What is at the path of one of the two JSON files.\<close>

datatype 'a stored = Absent | Truncated | Content 'a

text \<open>
  How \<^verbatim>\<open>with open(path, "w") as f: json.dump(output, f)\<close> ends: it writes the file, or
  \<^verbatim>\<open>open\<close> raises and the file is as it was, or \<^verbatim>\<open>open\<close> has emptied the file and the
  dump raises before the output is complete.
\<close>

datatype write_outcome = Written | OpenFails | DumpFails

text \<open>
  What the PDF library and the OCR engine give for one page: \<open>page_text\<close> is the value of
  \<^verbatim>\<open>re.findall(..., page.get_text().lower())\<close>, or \<open>None\<close> when \<^verbatim>\<open>load_page\<close> or \<^verbatim>\<open>get_text\<close>
  raises; \<open>page_ocr\<close> is what the OCR fallback would give for the page.
\<close>

datatype ocr_result = OcrRaises | NoImages | OcrTokens "token list"

record pdf_page =
  page_text :: "token list option"
  page_ocr :: ocr_result

datatype pdf_file = OpenRaises | Pdf "pdf_page list"

record world =
  listdir_pdfs :: "string list option"
  getmtime :: "string \<Rightarrow> timestamp option"
  open_pdf :: "string \<Rightarrow> pdf_file"
  word_map_write :: write_outcome
  cache_write :: write_outcome

record disk =
  word_map_file :: "word_map_json stored"
  cache_file :: "cache stored"

subsection \<open>extract\_tokens\_from\_pdf\<close>

text \<open>The tokens of one page (lines 23 to 34); \<open>None\<close> when an exception leaves the loop.\<close>

definition page_tokens :: "pdf_page \<Rightarrow> token list option" where
  "page_tokens page =
     (case page_text page of
        None \<Rightarrow> None
      | Some tokens \<Rightarrow>
          if tokens = [] then
            (case page_ocr page of
               OcrRaises \<Rightarrow> None
             | NoImages \<Rightarrow> Some tokens
             | OcrTokens ocr_tokens \<Rightarrow> Some ocr_tokens)
          else Some tokens)"

text \<open>Lines 36 and 37: \<^verbatim>\<open>token_map[token].add((filename, page_number + 1))\<close> for each token.\<close>

definition add_location :: "location \<Rightarrow> token \<Rightarrow> token_map \<Rightarrow> token_map" where
  "add_location loc tok token_map =
     token_map(tok \<mapsto> insert loc (case token_map tok of None \<Rightarrow> {} | Some locs \<Rightarrow> locs))"

definition add_tokens :: "string \<Rightarrow> nat \<Rightarrow> token list \<Rightarrow> token_map \<Rightarrow> token_map" where
  "add_tokens filename page_number tokens token_map =
     fold (add_location (filename, page_number + 1)) tokens token_map"

text \<open>
  The loop over the pages. The \<^verbatim>\<open>try\<close> encloses the whole loop, so an exception at one
  page ends the loop and the function returns what it has collected so far.
\<close>

fun scan_pages :: "string \<Rightarrow> nat \<Rightarrow> pdf_page list \<Rightarrow> token_map \<Rightarrow> token_map" where
  "scan_pages filename page_number [] token_map = token_map"
| "scan_pages filename page_number (page # pages) token_map =
     (case page_tokens page of
        None \<Rightarrow> token_map
      | Some tokens \<Rightarrow>
          scan_pages filename (page_number + 1) pages
            (add_tokens filename page_number tokens token_map))"

text \<open>
  The argument is the document's name: the path is \<^verbatim>\<open>os.path.join(folder, pdf)\<close> for a
  name of the listing, and \<^verbatim>\<open>os.path.basename\<close> of it is the name again.
\<close>

definition extract_tokens_from_pdf :: "world \<Rightarrow> string \<Rightarrow> token_map" where
  "extract_tokens_from_pdf w filename =
     (case open_pdf w filename of
        OpenRaises \<Rightarrow> Map.empty
      | Pdf pages \<Rightarrow> scan_pages filename 0 pages Map.empty)"

subsection \<open>merge\_token\_maps\<close>

text \<open>
  \<^verbatim>\<open>for token, locations in src.items(): target[token].update(locations)\<close>, the inner loop
  of \<^verbatim>\<open>merge_token_maps\<close> and lines 100 and 101 of \<^verbatim>\<open>pdf_check_add\<close>.
\<close>

definition update_locations :: "token_map \<Rightarrow> token_map \<Rightarrow> token_map" where
  "update_locations target src =
     (\<lambda>tok. case src tok of
        None \<Rightarrow> target tok
      | Some locations \<Rightarrow>
          Some ((case target tok of None \<Rightarrow> {} | Some locs \<Rightarrow> locs) \<union> locations))"

definition merge_token_maps :: "token_map list \<Rightarrow> token_map" where
  "merge_token_maps all_maps =
     fold (\<lambda>token_map merged. update_locations merged token_map) all_maps Map.empty"

subsection \<open>Persistence\<close>

definition file_locations :: "(string \<rightharpoonup> nat list) \<Rightarrow> location set" where
  "file_locations file_pages =
     {(file, page). \<exists>pages. file_pages file = Some pages \<and> page \<in> set pages}"

text \<open>
  \<^verbatim>\<open>load_existing_word_map_json\<close>: an entry of the \<^verbatim>\<open>defaultdict\<close> comes into being at the
  first \<^verbatim>\<open>add\<close>, so a token whose documents have no page does not get one.
\<close>

definition loaded_word_map :: "word_map_json \<Rightarrow> token_map" where
  "loaded_word_map data =
     (\<lambda>tok. case data tok of
        None \<Rightarrow> None
      | Some file_pages \<Rightarrow>
          if file_locations file_pages = {} then None
          else Some (file_locations file_pages))"

definition load_existing_word_map_json :: "disk \<Rightarrow> error + token_map" where
  "load_existing_word_map_json d =
     (case word_map_file d of
        Absent \<Rightarrow> Inr Map.empty
      | Truncated \<Rightarrow> Inl JSONDecodeError
      | Content data \<Rightarrow> Inr (loaded_word_map data))"

definition pages_of :: "location set \<Rightarrow> string \<Rightarrow> nat set" where
  "pages_of locations file = snd ` {loc \<in> locations. fst loc = file}"

text \<open>
  The dict written by \<^verbatim>\<open>save_word_map_json\<close>: \<^verbatim>\<open>structured_map[token][file]\<close> comes into
  being at the first location of the token and of the file; pages are \<^verbatim>\<open>sorted\<close>.
\<close>

definition structured_output :: "token_map \<Rightarrow> word_map_json" where
  "structured_output word_map =
     (\<lambda>tok. case word_map tok of
        None \<Rightarrow> None
      | Some locations \<Rightarrow>
          if locations = {} then None
          else Some (\<lambda>file. if file \<in> fst ` locations
                            then Some (sorted_list_of_set (pages_of locations file))
                            else None))"

text \<open>
  Lines 78 and 79. The result is the disk as the write leaves it and, when the write
  raises, the exception.
\<close>

definition save_word_map_json :: "world \<Rightarrow> token_map \<Rightarrow> disk \<Rightarrow> disk \<times> (error + unit)" where
  "save_word_map_json w word_map d =
     (case word_map_write w of
        Written \<Rightarrow> (d\<lparr>word_map_file := Content (structured_output word_map)\<rparr>, Inr ())
      | OpenFails \<Rightarrow> (d, Inl OSError)
      | DumpFails \<Rightarrow> (d\<lparr>word_map_file := Truncated\<rparr>, Inl OSError))"

definition load_cache :: "disk \<Rightarrow> error + cache" where
  "load_cache d =
     (case cache_file d of
        Absent \<Rightarrow> Inr []
      | Truncated \<Rightarrow> Inl JSONDecodeError
      | Content c \<Rightarrow> Inr c)"

text \<open>Lines 88 and 89.\<close>

definition save_cache :: "world \<Rightarrow> cache \<Rightarrow> disk \<Rightarrow> disk \<times> (error + unit)" where
  "save_cache w c d =
     (case cache_write w of
        Written \<Rightarrow> (d\<lparr>cache_file := Content c\<rparr>, Inr ())
      | OpenFails \<Rightarrow> (d, Inl OSError)
      | DumpFails \<Rightarrow> (d\<lparr>cache_file := Truncated\<rparr>, Inl OSError))"

subsection \<open>pdf\_check\_add and pdf\_check\_deleted\<close>

text \<open>Lines 102 to 104 (and 136 to 138): \<^verbatim>\<open>cache[pdf] = {"modified": getmtime(path)}\<close>.\<close>

fun record_mtimes :: "world \<Rightarrow> string list \<Rightarrow> cache \<Rightarrow> error + cache" where
  "record_mtimes w [] c = Inr c"
| "record_mtimes w (pdf # pdfs) c =
     (case getmtime w pdf of
        None \<Rightarrow> Inl OSError
      | Some t \<Rightarrow> record_mtimes w pdfs (AList.update pdf t c))"

definition pdf_check_add ::
  "world \<Rightarrow> string list \<Rightarrow> token_map \<Rightarrow> cache \<Rightarrow> error + (token_map \<times> cache)" where
  "pdf_check_add w new_pdfs word_map c =
     (if new_pdfs \<noteq> [] then
        (let token_maps = map (extract_tokens_from_pdf w) new_pdfs;
             new_data = merge_token_maps token_maps;
             word_map' = update_locations word_map new_data
         in case record_mtimes w new_pdfs c of
              Inl e \<Rightarrow> Inl e
            | Inr c' \<Rightarrow> Inr (word_map', c'))
      else Inr (word_map, c))"

text \<open>Lines 110 to 115: the locations of deleted documents go, and a token left empty goes.\<close>

definition purge_locations :: "string list \<Rightarrow> token_map \<Rightarrow> token_map" where
  "purge_locations deleted_pdfs word_map =
     (\<lambda>tok. case word_map tok of
        None \<Rightarrow> None
      | Some locs \<Rightarrow>
          (let updated_locations = {(file, page). (file, page) \<in> locs \<and> file \<notin> set deleted_pdfs}
           in if updated_locations \<noteq> {} then Some updated_locations else None))"

text \<open>Lines 116 and 117: \<^verbatim>\<open>del cache[pdf]\<close> raises \<^verbatim>\<open>KeyError\<close> on a missing key.\<close>

fun del_all :: "string list \<Rightarrow> cache \<Rightarrow> error + cache" where
  "del_all [] c = Inr c"
| "del_all (pdf # pdfs) c =
     (if pdf \<in> fst ` set c then del_all pdfs (AList.delete pdf c) else Inl KeyError)"

definition pdf_check_deleted ::
  "string list \<Rightarrow> token_map \<Rightarrow> cache \<Rightarrow> error + (token_map \<times> cache)" where
  "pdf_check_deleted deleted_pdfs word_map c =
     (if deleted_pdfs \<noteq> [] then
        (case del_all deleted_pdfs c of
           Inl e \<Rightarrow> Inl e
         | Inr c' \<Rightarrow> Inr (purge_locations deleted_pdfs word_map, c'))
      else Inr (word_map, c))"

subsection \<open>build\_word\_map\_with\_cache\<close>

text \<open>Lines 148 to 153: the documents whose cached time differs from the one on disk.\<close>

fun scan_modified :: "world \<Rightarrow> cache \<Rightarrow> string list \<Rightarrow> error + string list" where
  "scan_modified w c [] = Inr []"
| "scan_modified w c (pdf # pdfs) =
     (case getmtime w pdf of
        None \<Rightarrow> Inl OSError
      | Some mod_time \<Rightarrow>
          (case scan_modified w c pdfs of
             Inl e \<Rightarrow> Inl e
           | Inr modified_pdfs \<Rightarrow>
               Inr (if map_of c pdf \<noteq> Some mod_time
                    then List.insert pdf modified_pdfs else modified_pdfs)))"

text \<open>Lines 129 to 138: no \<^verbatim>\<open>word_map.json\<close>, every listed document is extracted.\<close>

definition full_index :: "world \<Rightarrow> string list \<Rightarrow> cache \<Rightarrow> error + (token_map \<times> cache)" where
  "full_index w all_pdfs c =
     (let token_maps = map (extract_tokens_from_pdf w) all_pdfs;
          word_map = merge_token_maps token_maps
      in case record_mtimes w all_pdfs c of
           Inl e \<Rightarrow> Inl e
         | Inr c' \<Rightarrow> Inr (word_map, c'))"

text \<open>Lines 140 to 146: additions or deletions, chosen by the difference of the two sizes.\<close>

definition check_counts ::
  "world \<Rightarrow> string list \<Rightarrow> token_map \<Rightarrow> cache \<Rightarrow> error + (token_map \<times> cache)" where
  "check_counts w all_pdfs word_map c =
     (let all_pdfs_set = remdups all_pdfs;
          cached_pdfs_set = remdups (map fst c);
          m = int (length all_pdfs_set) - int (length cached_pdfs_set)
      in if m > 0 then
           pdf_check_add w [pdf \<leftarrow> all_pdfs_set. pdf \<notin> set cached_pdfs_set] word_map c
         else if m < 0 then
           pdf_check_deleted [pdf \<leftarrow> cached_pdfs_set. pdf \<notin> set all_pdfs_set] word_map c
         else Inr (word_map, c))"

text \<open>Lines 148 to 159: the modified documents are purged and extracted again.\<close>

definition check_modified ::
  "world \<Rightarrow> string list \<Rightarrow> token_map \<Rightarrow> cache \<Rightarrow> error + (token_map \<times> cache)" where
  "check_modified w all_pdfs word_map c =
     (case scan_modified w c all_pdfs of
        Inl e \<Rightarrow> Inl e
      | Inr modified_pdfs \<Rightarrow>
          if modified_pdfs \<noteq> [] then
            (case pdf_check_deleted modified_pdfs word_map c of
               Inl e \<Rightarrow> Inl e
             | Inr (word_map', c') \<Rightarrow> pdf_check_add w modified_pdfs word_map' c')
          else Inr (word_map, c))"

text \<open>Lines 121 to 159: everything the run does before it writes.\<close>

definition update_index :: "world \<Rightarrow> disk \<Rightarrow> error + (token_map \<times> cache)" where
  "update_index w d =
     (case listdir_pdfs w of
        None \<Rightarrow> Inl OSError
      | Some all_pdfs \<Rightarrow>
          (case load_cache d of
             Inl e \<Rightarrow> Inl e
           | Inr c \<Rightarrow>
               if word_map_file d = Absent then full_index w all_pdfs c
               else
                 (case load_existing_word_map_json d of
                    Inl e \<Rightarrow> Inl e
                  | Inr loaded \<Rightarrow>
                      (case check_counts w all_pdfs loaded c of
                         Inl e \<Rightarrow> Inl e
                       | Inr (word_map, c') \<Rightarrow> check_modified w all_pdfs word_map c'))))"

text \<open>
  The run: the files as it leaves them, and \<^verbatim>\<open>True\<close> or the exception that ended it.
  Lines 161 and 162 write the index first and the cache second; an exception in the
  first write leaves the second undone.
\<close>

definition build_word_map_with_cache :: "world \<Rightarrow> disk \<Rightarrow> disk \<times> (error + bool)" where
  "build_word_map_with_cache w d =
     (case update_index w d of
        Inl e \<Rightarrow> (d, Inl e)
      | Inr (word_map, c) \<Rightarrow>
          (case save_word_map_json w word_map d of
             (d', Inl e) \<Rightarrow> (d', Inl e)
           | (d', Inr _) \<Rightarrow>
               (case save_cache w c d' of
                  (d'', Inl e) \<Rightarrow> (d'', Inl e)
                | (d'', Inr _) \<Rightarrow> (d'', Inr True))))"

text \<open>What a merge holds for one token: the union of the locations the maps give it.\<close>

definition merged_at :: "token_map list \<Rightarrow> token \<Rightarrow> location set" where
  "merged_at tms tok = (\<Union>tm \<in> set tms. case tm tok of None \<Rightarrow> {} | Some s \<Rightarrow> s)"

subsection \<open>Invariants and contributions\<close>

text \<open>
  The in-memory index only holds locations whose documents are in \<open>D\<close>, with finitely
  many pages for a document.
\<close>

definition docs_within :: "string set \<Rightarrow> token_map \<Rightarrow> bool" where
  "docs_within D word_map =
     (\<forall>tok locs. word_map tok = Some locs \<longrightarrow>
        (\<forall>doc. finite (pages_of locs doc)) \<and> fst ` locs \<subseteq> D)"

text \<open>
  The pruning invariant of a saved index against a saved cache: every token has a
  document, every document of a token has a page, and every document is a key of the
  cache.
\<close>

definition pruning_invariant :: "word_map_json \<Rightarrow> cache \<Rightarrow> bool" where
  "pruning_invariant data c =
     (\<forall>tok file_pages. data tok = Some file_pages \<longrightarrow>
        dom file_pages \<noteq> {} \<and>
        (\<forall>file pages. file_pages file = Some pages \<longrightarrow>
           pages \<noteq> [] \<and> file \<in> fst ` set c))"

text \<open>
  The documents a saved index refers to, those that are keys of a saved cache, and the
  dangling ones: referred to by the index file without being a key of the cache file.
\<close>

definition indexed_docs :: "word_map_json \<Rightarrow> string set" where
  "indexed_docs data =
     {doc. \<exists>tok file_pages pages.
        data tok = Some file_pages \<and> file_pages doc = Some pages \<and> pages \<noteq> []}"

definition dangling :: "disk \<Rightarrow> string set" where
  "dangling d =
     (case word_map_file d of
        Content data \<Rightarrow>
          indexed_docs data - (case cache_file d of Content c \<Rightarrow> fst ` set c | _ \<Rightarrow> {})
      | _ \<Rightarrow> {})"

text \<open>
  What one document contributes: the token lists of its pages up to the first page at
  which an exception is raised (none when the document cannot be opened), and for a
  token its locations on these pages, numbered from 1.
\<close>

fun readable_pages :: "pdf_page list \<Rightarrow> token list list" where
  "readable_pages [] = []"
| "readable_pages (page # pages) =
     (case page_tokens page of
        None \<Rightarrow> []
      | Some tokens \<Rightarrow> tokens # readable_pages pages)"

definition pages_before_failure :: "pdf_file \<Rightarrow> token list list" where
  "pages_before_failure f = (case f of OpenRaises \<Rightarrow> [] | Pdf pages \<Rightarrow> readable_pages pages)"

definition occurrences :: "string \<Rightarrow> token list list \<Rightarrow> token \<Rightarrow> location set" where
  "occurrences filename pages tok =
     {(filename, Suc i) | i. i < length pages \<and> tok \<in> set (pages ! i)}"

subsection \<open>A sample folder\<close>

text \<open>
  Concrete inputs on which the theorems below are run. Every document has one page of
  text, but \<^verbatim>\<open>E.pdf\<close>, whose second page cannot be read.
\<close>

definition text_page :: "token list \<Rightarrow> pdf_page" where
  "text_page tokens = \<lparr>page_text = Some tokens, page_ocr = NoImages\<rparr>"

definition unreadable_page :: pdf_page where
  "unreadable_page = \<lparr>page_text = None, page_ocr = NoImages\<rparr>"

definition sample_pdfs :: "string \<Rightarrow> pdf_file" where
  "sample_pdfs name =
     (if name = ''A.pdf'' then Pdf [text_page [''x'', ''y'']]
      else if name = ''B.pdf'' then Pdf [text_page [''y'']]
      else if name = ''E.pdf'' then Pdf [text_page [''x''], unreadable_page, text_page [''w'']]
      else Pdf [text_page [''z'']])"

definition sample_world :: "string list \<Rightarrow> world" where
  "sample_world names =
     \<lparr>listdir_pdfs = Some names, getmtime = (\<lambda>_. Some 1), open_pdf = sample_pdfs,
      word_map_write = Written, cache_write = Written\<rparr>"

definition no_checkpoint :: disk where
  "no_checkpoint = \<lparr>word_map_file = Absent, cache_file = Absent\<rparr>"

text \<open>The files a first run leaves on a folder that holds \<^verbatim>\<open>B.pdf\<close> only.\<close>

definition checkpoint_B :: disk where
  "checkpoint_B =
     \<lparr>word_map_file = Content [''y'' \<mapsto> [''B.pdf'' \<mapsto> [1]]],
      cache_file = Content [(''B.pdf'', 1)]\<rparr>"

text \<open>
  A folder from which \<^verbatim>\<open>F.pdf\<close> has gone after it was listed: it cannot be opened and
  its modification time cannot be read.
\<close>

definition vanished_world :: "string list \<Rightarrow> world" where
  "vanished_world names =
     \<lparr>listdir_pdfs = Some names,
      getmtime = (\<lambda>name. if name = ''F.pdf'' then None else Some 1),
      open_pdf = (\<lambda>name. if name = ''F.pdf'' then OpenRaises else sample_pdfs name),
      word_map_write = Written, cache_write = Written\<rparr>"

section \<open>Properties\<close>

subsection \<open>Pages, occurrences and extraction\<close>

lemma pages_of_Un: "pages_of (A \<union> B) doc = pages_of A doc \<union> pages_of B doc"
  by (auto simp: pages_of_def)

lemma pages_of_mono: "A \<subseteq> B \<Longrightarrow> pages_of A doc \<subseteq> pages_of B doc"
  by (auto simp: pages_of_def)

lemma pages_of_file_locations:
  "pages_of (file_locations file_pages) doc =
     (case file_pages doc of None \<Rightarrow> {} | Some pages \<Rightarrow> set pages)"
  by (force simp: pages_of_def file_locations_def split: option.splits)

lemma pages_of_empty: "pages_of {} doc = {}"
  by (simp add: pages_of_def)

lemma pages_of_insert:
  "pages_of (insert (d, p) locs) doc =
     (if d = doc then insert p (pages_of locs doc) else pages_of locs doc)"
  by (force simp: pages_of_def)

lemma pages_of_nonempty: "file \<in> fst ` locs \<Longrightarrow> pages_of locs file \<noteq> {}"
  by (force simp: pages_of_def)

lemma finite_pages_of: "finite locs \<Longrightarrow> finite (pages_of locs file)"
  by (simp add: pages_of_def)

lemma add_tokens_apply:
  "add_tokens filename n tokens tm tok =
     (if tok \<in> set tokens
      then Some (insert (filename, n + 1) (case tm tok of None \<Rightarrow> {} | Some s \<Rightarrow> s))
      else tm tok)"
  unfolding add_tokens_def
  by (induction tokens arbitrary: tm) (auto simp: add_location_def)

lemma occurrences_Nil: "occurrences filename [] tok = {}"
  by (simp add: occurrences_def)

lemma occurrences_Cons:
  "occurrences filename (tokens # pages) tok =
     (if tok \<in> set tokens then {(filename, 1)} else {})
     \<union> (\<lambda>loc. (fst loc, Suc (snd loc))) ` occurrences filename pages tok"
proof (rule set_eqI)
  fix loc :: location
  obtain f p where loc: "loc = (f, p)" by (cases loc)
  have "loc \<in> occurrences filename (tokens # pages) tok \<longleftrightarrow>
        f = filename \<and> (\<exists>i. p = Suc i \<and> i < Suc (length pages) \<and> tok \<in> set ((tokens # pages) ! i))"
    by (auto simp: occurrences_def loc)
  also have "\<dots> \<longleftrightarrow> f = filename \<and>
        ((p = 1 \<and> tok \<in> set tokens) \<or>
         (\<exists>j. p = Suc (Suc j) \<and> j < length pages \<and> tok \<in> set (pages ! j)))"
  proof (intro conj_cong refl iffI)
    assume "\<exists>i. p = Suc i \<and> i < Suc (length pages) \<and> tok \<in> set ((tokens # pages) ! i)"
    then obtain i where i: "p = Suc i" "i < Suc (length pages)" "tok \<in> set ((tokens # pages) ! i)"
      by blast
    show "(p = 1 \<and> tok \<in> set tokens) \<or>
         (\<exists>j. p = Suc (Suc j) \<and> j < length pages \<and> tok \<in> set (pages ! j))"
      using i by (cases i) auto
  next
    assume "(p = 1 \<and> tok \<in> set tokens) \<or>
         (\<exists>j. p = Suc (Suc j) \<and> j < length pages \<and> tok \<in> set (pages ! j))"
    then show "\<exists>i. p = Suc i \<and> i < Suc (length pages) \<and> tok \<in> set ((tokens # pages) ! i)"
    proof
      assume "p = 1 \<and> tok \<in> set tokens"
      then show ?thesis by (intro exI[of _ 0]) simp
    next
      assume "\<exists>j. p = Suc (Suc j) \<and> j < length pages \<and> tok \<in> set (pages ! j)"
      then obtain j where "p = Suc (Suc j)" "j < length pages" "tok \<in> set (pages ! j)" by blast
      then show ?thesis by (intro exI[of _ "Suc j"]) simp
    qed
  qed
  also have "\<dots> \<longleftrightarrow> loc \<in> (if tok \<in> set tokens then {(filename, 1)} else {})
     \<union> (\<lambda>loc. (fst loc, Suc (snd loc))) ` occurrences filename pages tok"
    by (auto simp: occurrences_def loc image_iff)
  finally show "loc \<in> occurrences filename (tokens # pages) tok \<longleftrightarrow>
     loc \<in> (if tok \<in> set tokens then {(filename, 1)} else {})
     \<union> (\<lambda>loc. (fst loc, Suc (snd loc))) ` occurrences filename pages tok" .
qed

lemma scan_pages_apply:
  "scan_pages filename n pages tm tok =
     (if occurrences filename (readable_pages pages) tok = {} then tm tok
      else Some ((case tm tok of None \<Rightarrow> {} | Some s \<Rightarrow> s)
                 \<union> (\<lambda>loc. (fst loc, n + snd loc)) ` occurrences filename (readable_pages pages) tok))"
proof (induction pages arbitrary: n tm)
  case Nil
  then show ?case by (simp add: occurrences_Nil)
next
  case (Cons page pages)
  show ?case
  proof (cases "page_tokens page")
    case None
    then show ?thesis by (simp add: occurrences_Nil)
  next
    case (Some tokens)
    let ?rest = "occurrences filename (readable_pages pages) tok"
    have shift: "(\<lambda>loc. (fst loc, n + snd loc)) ` (\<lambda>loc. (fst loc, Suc (snd loc))) ` ?rest
                 = (\<lambda>loc. (fst loc, Suc n + snd loc)) ` ?rest"
      by (simp add: image_image)
    have step: "scan_pages filename n (page # pages) tm tok
        = scan_pages filename (Suc n) pages (add_tokens filename n tokens tm) tok"
      using Some by simp
    show ?thesis
      unfolding step Cons.IH
      using Some
      by (auto simp: occurrences_Cons add_tokens_apply image_Un shift split: option.splits)
  qed
qed

lemma extract_apply:
  "extract_tokens_from_pdf w pdf tok =
     (if occurrences pdf (pages_before_failure (open_pdf w pdf)) tok = {} then None
      else Some (occurrences pdf (pages_before_failure (open_pdf w pdf)) tok))"
proof (cases "open_pdf w pdf")
  case OpenRaises
  then show ?thesis
    by (simp add: extract_tokens_from_pdf_def pages_before_failure_def occurrences_Nil)
next
  case (Pdf pages)
  have "(\<lambda>loc. (fst loc, 0 + snd loc)) ` occurrences pdf (readable_pages pages) tok
        = occurrences pdf (readable_pages pages) tok"
    by simp
  with Pdf show ?thesis
    by (simp add: extract_tokens_from_pdf_def pages_before_failure_def scan_pages_apply)
qed

subsection \<open>Merging, deleting and the documents of the index\<close>

lemma update_locations_commute:
  "update_locations (update_locations m a) b = update_locations (update_locations m b) a"
  by (rule ext) (auto simp: update_locations_def split: option.splits)

lemma update_locations_idem:
  "update_locations (update_locations m a) a = update_locations m a"
  by (rule ext) (auto simp: update_locations_def split: option.splits)

lemma update_locations_present:
  assumes "\<forall>tok locs. nd tok = Some locs \<longrightarrow> (\<exists>s. wm tok = Some s \<and> locs \<subseteq> s)"
  shows "update_locations wm nd = wm"
proof (rule ext)
  fix tok
  show "update_locations wm nd tok = wm tok"
  proof (cases "nd tok")
    case None
    then show ?thesis by (simp add: update_locations_def)
  next
    case (Some locs)
    with assms obtain s where "wm tok = Some s" "locs \<subseteq> s" by blast
    with Some show ?thesis by (auto simp: update_locations_def)
  qed
qed

lemma update_locations_apply:
  "update_locations target src tok =
     (case src tok of
        None \<Rightarrow> target tok
      | Some locations \<Rightarrow>
          Some ((case target tok of None \<Rightarrow> {} | Some locs \<Rightarrow> locs) \<union> locations))"
  by (simp add: update_locations_def)

lemma fold_update_locations:
  "fold (\<lambda>token_map merged. update_locations merged token_map) tms acc tok =
     (if \<exists>tm \<in> set tms. tm tok \<noteq> None
      then Some ((case acc tok of None \<Rightarrow> {} | Some s \<Rightarrow> s) \<union> merged_at tms tok)
      else acc tok)"
proof (induction tms arbitrary: acc)
  case Nil
  then show ?case by simp
next
  case (Cons tm tms)
  let ?f = "\<lambda>token_map merged. update_locations merged token_map"
  have "fold ?f (tm # tms) acc tok = fold ?f tms (update_locations acc tm) tok"
    by simp
  also have "\<dots> = (if \<exists>tm \<in> set tms. tm tok \<noteq> None
      then Some ((case update_locations acc tm tok of None \<Rightarrow> {} | Some s \<Rightarrow> s) \<union> merged_at tms tok)
      else update_locations acc tm tok)"
    by (rule Cons.IH)
  also have "\<dots> = (if \<exists>tm' \<in> set (tm # tms). tm' tok \<noteq> None
      then Some ((case acc tok of None \<Rightarrow> {} | Some s \<Rightarrow> s) \<union> merged_at (tm # tms) tok)
      else acc tok)"
    by (cases "tm tok") (auto simp: update_locations_apply merged_at_def split: option.splits)
  finally show ?case .
qed

lemma merge_token_maps_apply:
  "merge_token_maps tms tok =
     (if \<exists>tm \<in> set tms. tm tok \<noteq> None then Some (merged_at tms tok) else None)"
  by (simp add: merge_token_maps_def fold_update_locations)

lemma del_all_missing:
  "\<not> set deleted \<subseteq> fst ` set c \<Longrightarrow> del_all deleted c = Inl KeyError"
proof (induction deleted arbitrary: c)
  case Nil
  then show ?case by simp
next
  case (Cons pdf pdfs)
  show ?case
  proof (cases "pdf \<in> fst ` set c")
    case True
    with Cons.prems obtain x where x: "x \<in> set pdfs" "x \<notin> fst ` set c" by auto
    have "x \<notin> fst ` set (AList.delete pdf c)"
      using x(2) AList.dom_delete_subset[of pdf c] by blast
    with x(1) have "\<not> set pdfs \<subseteq> fst ` set (AList.delete pdf c)" by blast
    then show ?thesis using True Cons.IH by simp
  next
    case False
    then show ?thesis by simp
  qed
qed

lemma keys_delete: "fst ` set (AList.delete k c) = fst ` set c - {k}"
  by (induction c) auto

lemma del_all_present:
  "distinct deleted \<Longrightarrow> set deleted \<subseteq> fst ` set c \<Longrightarrow>
   \<exists>c'. del_all deleted c = Inr c' \<and> fst ` set c' = fst ` set c - set deleted
     \<and> (\<forall>k. k \<notin> set deleted \<longrightarrow> map_of c' k = map_of c k)"
proof (induction deleted arbitrary: c)
  case Nil
  then show ?case by simp
next
  case (Cons pdf pdfs)
  from Cons.prems have in_c: "pdf \<in> fst ` set c" by simp
  from Cons.prems have "set pdfs \<subseteq> fst ` set (AList.delete pdf c)"
    by (auto simp: keys_delete)
  with Cons.IH[of "AList.delete pdf c"] Cons.prems(1)
  obtain c' where c': "del_all pdfs (AList.delete pdf c) = Inr c'"
    "fst ` set c' = fst ` set (AList.delete pdf c) - set pdfs"
    "\<forall>k. k \<notin> set pdfs \<longrightarrow> map_of c' k = map_of (AList.delete pdf c) k"
    by auto
  show ?case using in_c c' by (auto simp: keys_delete)
qed

lemma docs_within_mono: "docs_within D tm \<Longrightarrow> D \<subseteq> D' \<Longrightarrow> docs_within D' tm"
  unfolding docs_within_def by blast

lemma docs_within_empty: "docs_within D Map.empty"
  by (simp add: docs_within_def)

lemma docs_within_update_locations:
  assumes "docs_within D a" and "docs_within D b"
  shows "docs_within D (update_locations a b)"
  unfolding docs_within_def
proof (intro allI impI)
  fix tok locs
  assume h: "update_locations a b tok = Some locs"
  show "(\<forall>doc. finite (pages_of locs doc)) \<and> fst ` locs \<subseteq> D"
  proof (cases "b tok")
    case None
    with h assms(1) show ?thesis by (simp add: update_locations_apply docs_within_def)
  next
    case (Some lb)
    with assms(2) have lb: "\<forall>doc. finite (pages_of lb doc)" "fst ` lb \<subseteq> D"
      by (auto simp: docs_within_def)
    show ?thesis
    proof (cases "a tok")
      case None
      with h Some lb show ?thesis by (auto simp: update_locations_apply)
    next
      case (Some la)
      with assms(1) have "\<forall>doc. finite (pages_of la doc)" "fst ` la \<subseteq> D"
        by (auto simp: docs_within_def)
      with h Some \<open>b tok = Some lb\<close> lb show ?thesis
        by (auto simp: update_locations_apply pages_of_Un)
    qed
  qed
qed

lemma docs_within_fold_update:
  "docs_within D acc \<Longrightarrow> \<forall>tm \<in> set tms. docs_within D tm \<Longrightarrow>
   docs_within D (fold (\<lambda>token_map merged. update_locations merged token_map) tms acc)"
  by (induction tms arbitrary: acc) (simp_all add: docs_within_update_locations)

lemma docs_within_merge:
  "\<forall>tm \<in> set tms. docs_within D tm \<Longrightarrow> docs_within D (merge_token_maps tms)"
  by (simp add: merge_token_maps_def docs_within_fold_update docs_within_empty)

lemma docs_within_add_location:
  assumes "docs_within D tm" and "fst loc \<in> D"
  shows "docs_within D (add_location loc tok tm)"
  unfolding docs_within_def
proof (intro allI impI)
  fix tok' locs
  assume h: "add_location loc tok tm tok' = Some locs"
  obtain f p where loc: "loc = (f, p)" by (cases loc)
  show "(\<forall>doc. finite (pages_of locs doc)) \<and> fst ` locs \<subseteq> D"
  proof (cases "tok' = tok")
    case False
    with h assms(1) show ?thesis by (simp add: add_location_def docs_within_def)
  next
    case True
    show ?thesis
    proof (cases "tm tok")
      case None
      with h True assms(2) show ?thesis
        by (auto simp: add_location_def loc pages_of_insert pages_of_empty)
    next
      case (Some old)
      with assms(1) have "\<forall>doc. finite (pages_of old doc)" "fst ` old \<subseteq> D"
        by (auto simp: docs_within_def)
      with h True Some assms(2) show ?thesis
        by (auto simp: add_location_def loc pages_of_insert)
    qed
  qed
qed

lemma docs_within_add_tokens:
  "docs_within D tm \<Longrightarrow> filename \<in> D \<Longrightarrow> docs_within D (add_tokens filename n tokens tm)"
  unfolding add_tokens_def
  by (induction tokens arbitrary: tm) (simp_all add: docs_within_add_location)

lemma docs_within_scan_pages:
  "docs_within D tm \<Longrightarrow> filename \<in> D \<Longrightarrow> docs_within D (scan_pages filename n pages tm)"
  by (induction pages arbitrary: n tm) (simp_all add: docs_within_add_tokens split: option.splits)

lemma docs_within_extract: "docs_within {filename} (extract_tokens_from_pdf w filename)"
  by (simp add: extract_tokens_from_pdf_def docs_within_scan_pages docs_within_empty
      split: pdf_file.splits)

lemma docs_within_extracts:
  "docs_within (set pdfs) (merge_token_maps (map (extract_tokens_from_pdf w) pdfs))"
proof (rule docs_within_merge, rule ballI)
  fix tm assume "tm \<in> set (map (extract_tokens_from_pdf w) pdfs)"
  then obtain pdf where "pdf \<in> set pdfs" "tm = extract_tokens_from_pdf w pdf" by auto
  then show "docs_within (set pdfs) tm"
    using docs_within_mono[OF docs_within_extract, of pdf "set pdfs" w] by simp
qed

lemma docs_within_purge:
  assumes "docs_within D wm"
  shows "docs_within (D - set deleted) (purge_locations deleted wm)"
  unfolding docs_within_def
proof (intro allI impI)
  fix tok locs
  assume h: "purge_locations deleted wm tok = Some locs"
  then obtain old where old: "wm tok = Some old"
    and locs: "locs = {(file, page). (file, page) \<in> old \<and> file \<notin> set deleted}"
    by (auto simp: purge_locations_def Let_def split: option.splits if_splits)
  from assms old have fin: "\<forall>doc. finite (pages_of old doc)" and sub: "fst ` old \<subseteq> D"
    by (auto simp: docs_within_def)
  have "locs \<subseteq> old" unfolding locs by auto
  then have "finite (pages_of locs doc)" for doc
    using fin pages_of_mono[of locs old doc] by (blast intro: finite_subset)
  moreover have "fst ` locs \<subseteq> D - set deleted" unfolding locs using sub by force
  ultimately show "(\<forall>doc. finite (pages_of locs doc)) \<and> fst ` locs \<subseteq> D - set deleted"
    by blast
qed

lemma record_mtimes_keys:
  "record_mtimes w pdfs c = Inr c' \<Longrightarrow> fst ` set c' = fst ` set c \<union> set pdfs"
  by (induction pdfs arbitrary: c) (auto simp: AList.dom_update split: option.splits)

lemma record_mtimes_other:
  "record_mtimes w pdfs c = Inr c' \<Longrightarrow> k \<notin> set pdfs \<Longrightarrow> map_of c' k = map_of c k"
  by (induction pdfs arbitrary: c) (auto simp: AList.update_conv' split: option.splits)

lemma record_mtimes_recorded:
  "record_mtimes w pdfs c = Inr c' \<Longrightarrow> pdf \<in> set pdfs \<Longrightarrow> map_of c' pdf = getmtime w pdf"
proof (induction pdfs arbitrary: c)
  case Nil
  then show ?case by simp
next
  case (Cons p ps)
  from Cons.prems(1) obtain t where t: "getmtime w p = Some t"
    "record_mtimes w ps (AList.update p t c) = Inr c'"
    by (auto split: option.splits)
  show ?case
  proof (cases "pdf \<in> set ps")
    case True
    then show ?thesis using Cons.IH[OF t(2)] by simp
  next
    case False
    with Cons.prems(2) have "pdf = p" by simp
    with False t record_mtimes_other[OF t(2), of pdf] show ?thesis
      by (simp add: AList.update_conv')
  qed
qed

lemma record_mtimes_total:
  "\<forall>pdf \<in> set pdfs. getmtime w pdf \<noteq> None \<Longrightarrow> \<exists>c'. record_mtimes w pdfs c = Inr c'"
  by (induction pdfs arbitrary: c) auto

lemma del_all_keys:
  "del_all deleted c = Inr c' \<Longrightarrow> fst ` set c' = fst ` set c - set deleted"
  by (induction deleted arbitrary: c) (auto simp: keys_delete split: if_splits)

lemma pdf_check_add_inv:
  assumes "pdf_check_add w new_pdfs wm c = Inr (wm', c')"
    and "docs_within (fst ` set c \<union> X) wm"
  shows "docs_within (fst ` set c' \<union> X) wm'"
proof (cases "new_pdfs = []")
  case True
  with assms show ?thesis by (simp add: pdf_check_add_def)
next
  case False
  with assms(1) have c': "record_mtimes w new_pdfs c = Inr c'"
    and wm': "wm' = update_locations wm (merge_token_maps (map (extract_tokens_from_pdf w) new_pdfs))"
    by (auto simp: pdf_check_add_def Let_def split: sum.splits)
  have keys: "fst ` set c' = fst ` set c \<union> set new_pdfs" by (rule record_mtimes_keys[OF c'])
  show ?thesis unfolding wm' keys
    by (rule docs_within_update_locations)
       (auto intro: docs_within_mono[OF assms(2)] docs_within_mono[OF docs_within_extracts])
qed

lemma pdf_check_deleted_inv:
  assumes "pdf_check_deleted deleted wm c = Inr (wm', c')"
    and "docs_within (fst ` set c \<union> X) wm"
  shows "docs_within (fst ` set c' \<union> X) wm'"
proof (cases "deleted = []")
  case True
  with assms show ?thesis by (simp add: pdf_check_deleted_def)
next
  case False
  with assms(1) have c': "del_all deleted c = Inr c'" and wm': "wm' = purge_locations deleted wm"
    by (auto simp: pdf_check_deleted_def split: sum.splits)
  have "docs_within ((fst ` set c \<union> X) - set deleted) (purge_locations deleted wm)"
    by (rule docs_within_purge[OF assms(2)])
  then show ?thesis unfolding wm' del_all_keys[OF c']
    by (rule docs_within_mono) blast
qed

lemma full_index_inv:
  assumes "full_index w all_pdfs c = Inr (wm, c')"
  shows "docs_within (fst ` set c' \<union> X) wm"
proof -
  from assms have c': "record_mtimes w all_pdfs c = Inr c'"
    and wm: "wm = merge_token_maps (map (extract_tokens_from_pdf w) all_pdfs)"
    by (auto simp: full_index_def Let_def split: sum.splits)
  show ?thesis unfolding wm record_mtimes_keys[OF c']
    by (rule docs_within_mono[OF docs_within_extracts]) blast
qed

lemma check_counts_inv:
  assumes "check_counts w all_pdfs wm c = Inr (wm', c')"
    and "docs_within (fst ` set c \<union> X) wm"
  shows "docs_within (fst ` set c' \<union> X) wm'"
proof -
  let ?m = "int (length (remdups all_pdfs)) - int (length (remdups (map fst c)))"
  show ?thesis
  proof (cases "?m > 0")
    case True
    with assms(1) show ?thesis
      by (auto simp: check_counts_def Let_def intro: pdf_check_add_inv[OF _ assms(2)])
  next
    case False
    show ?thesis
    proof (cases "?m < 0")
      case True
      with False assms(1) show ?thesis
        by (auto simp: check_counts_def Let_def intro: pdf_check_deleted_inv[OF _ assms(2)])
    next
      case False
      with \<open>\<not> ?m > 0\<close> assms show ?thesis by (simp add: check_counts_def Let_def)
    qed
  qed
qed

lemma check_modified_inv:
  assumes "check_modified w all_pdfs wm c = Inr (wm', c')"
    and "docs_within (fst ` set c \<union> X) wm"
  shows "docs_within (fst ` set c' \<union> X) wm'"
proof -
  from assms(1) obtain ms where ms: "scan_modified w c all_pdfs = Inr ms"
    by (auto simp: check_modified_def split: sum.splits)
  show ?thesis
  proof (cases "ms = []")
    case True
    with assms ms show ?thesis by (simp add: check_modified_def)
  next
    case False
    with assms(1) ms obtain wm1 c1 where
      del: "pdf_check_deleted ms wm c = Inr (wm1, c1)" and
      add: "pdf_check_add w ms wm1 c1 = Inr (wm', c')"
      by (auto simp: check_modified_def split: sum.splits)
    from pdf_check_add_inv[OF add pdf_check_deleted_inv[OF del assms(2)]]
    show ?thesis .
  qed
qed

lemma loaded_docs_within: "docs_within (indexed_docs data) (loaded_word_map data)"
  unfolding docs_within_def
proof (intro allI impI)
  fix tok locs
  assume "loaded_word_map data tok = Some locs"
  then obtain fp where fp: "data tok = Some fp" "locs = file_locations fp"
    by (auto simp: loaded_word_map_def split: option.splits if_splits)
  have "finite (pages_of locs doc)" for doc
    unfolding fp(2) pages_of_file_locations by (simp split: option.splits)
  moreover have "fst ` locs \<subseteq> indexed_docs data"
    using fp by (fastforce simp: indexed_docs_def file_locations_def)
  ultimately show "(\<forall>doc. finite (pages_of locs doc)) \<and> fst ` locs \<subseteq> indexed_docs data"
    by blast
qed

lemma update_index_inv:
  assumes "update_index w d = Inr (wm, c)"
  shows "docs_within (fst ` set c \<union> dangling d) wm"
proof -
  from assms obtain all_pdfs c0 where l: "listdir_pdfs w = Some all_pdfs"
    and c0: "load_cache d = Inr c0"
    by (auto simp: update_index_def split: option.splits sum.splits)
  show ?thesis
  proof (cases "word_map_file d = Absent")
    case True
    with assms l c0 have "full_index w all_pdfs c0 = Inr (wm, c)"
      by (simp add: update_index_def)
    then show ?thesis by (rule full_index_inv)
  next
    case False
    with assms l c0 obtain loaded wm1 c1 where
      ld: "load_existing_word_map_json d = Inr loaded" and
      cc: "check_counts w all_pdfs loaded c0 = Inr (wm1, c1)" and
      cm: "check_modified w all_pdfs wm1 c1 = Inr (wm, c)"
      by (auto simp: update_index_def split: sum.splits)
    from ld False obtain data where data: "word_map_file d = Content data"
      and loaded: "loaded = loaded_word_map data"
      by (auto simp: load_existing_word_map_json_def split: stored.splits)
    have "indexed_docs data \<subseteq> fst ` set c0 \<union> dangling d"
      using data c0 by (auto simp: dangling_def load_cache_def split: stored.splits)
    with loaded_docs_within[of data] have "docs_within (fst ` set c0 \<union> dangling d) loaded"
      unfolding loaded by (rule docs_within_mono)
    from check_modified_inv[OF cm check_counts_inv[OF cc this]] show ?thesis .
  qed
qed

lemma dom_structured_entry:
  "dom (\<lambda>file. if file \<in> fst ` locs then Some (f file) else None) = fst ` locs"
  by (auto simp: dom_def)

lemma structured_output_entry:
  assumes "docs_within D wm" and "structured_output wm tok = Some fp"
  shows "dom fp \<noteq> {} \<and> (\<forall>doc pages. fp doc = Some pages \<longrightarrow> pages \<noteq> [] \<and> doc \<in> D)"
proof -
  from assms(2) obtain locs where locs: "wm tok = Some locs" "locs \<noteq> {}"
    and fp: "fp = (\<lambda>file. if file \<in> fst ` locs
                          then Some (sorted_list_of_set (pages_of locs file)) else None)"
    by (auto simp: structured_output_def split: option.splits if_splits)
  from assms(1) locs(1) have fin: "\<forall>doc. finite (pages_of locs doc)" and sub: "fst ` locs \<subseteq> D"
    by (auto simp: docs_within_def)
  have d: "dom fp = fst ` locs" unfolding fp by (rule dom_structured_entry)
  have "dom fp \<noteq> {}" unfolding d using locs(2) by simp
  moreover have "\<forall>doc pages. fp doc = Some pages \<longrightarrow> pages \<noteq> [] \<and> doc \<in> D"
  proof (intro allI impI)
    fix doc pages assume "fp doc = Some pages"
    then have f: "doc \<in> fst ` locs" and p: "pages = sorted_list_of_set (pages_of locs doc)"
      by (auto simp: fp split: if_splits)
    have "set pages = pages_of locs doc" unfolding p using fin by simp
    with pages_of_nonempty[OF f] have "pages \<noteq> []" by auto
    with f sub show "pages \<noteq> [] \<and> doc \<in> D" by blast
  qed
  ultimately show ?thesis by blast
qed

lemma build_completed:
  assumes "build_word_map_with_cache w d = (d', Inr r)"
  shows "\<exists>wm c. update_index w d = Inr (wm, c) \<and>
           d' = d\<lparr>word_map_file := Content (structured_output wm), cache_file := Content c\<rparr>"
  using assms
  by (auto simp: build_word_map_with_cache_def save_word_map_json_def save_cache_def
      split: sum.splits write_outcome.splits)

lemma scan_modified_set:
  "scan_modified w c all_pdfs = Inr ms \<Longrightarrow>
   set ms = {pdf \<in> set all_pdfs. map_of c pdf \<noteq> getmtime w pdf}"
proof (induction all_pdfs arbitrary: ms)
  case Nil
  then show ?case by simp
next
  case (Cons p ps)
  from Cons.prems obtain t ms' where t: "getmtime w p = Some t"
    and ms': "scan_modified w c ps = Inr ms'"
    and ms: "ms = (if map_of c p \<noteq> Some t then List.insert p ms' else ms')"
    by (auto split: option.splits sum.splits)
  have IH: "set ms' = {pdf \<in> set ps. map_of c pdf \<noteq> getmtime w pdf}"
    by (rule Cons.IH[OF ms'])
  show ?case
  proof (cases "map_of c p = Some t")
    case True
    then have "set ms = set ms'" by (simp add: ms)
    also have "\<dots> = {pdf \<in> set (p # ps). map_of c pdf \<noteq> getmtime w pdf}"
      unfolding IH using True t by auto
    finally show ?thesis .
  next
    case False
    then have "set ms = insert p (set ms')" by (simp add: ms)
    also have "\<dots> = {pdf \<in> set (p # ps). map_of c pdf \<noteq> getmtime w pdf}"
      unfolding IH using False t by auto
    finally show ?thesis .
  qed
qed

lemma record_mtimes_unchanged:
  "\<forall>pdf \<in> set pdfs. getmtime w pdf \<noteq> None \<and> map_of c pdf = getmtime w pdf \<Longrightarrow>
   record_mtimes w pdfs c = Inr c"
  by (induction pdfs) (auto simp: AList.update_triv)

lemma record_mtimes_readable:
  "record_mtimes w pdfs c = Inr c' \<Longrightarrow> pdf \<in> set pdfs \<Longrightarrow> getmtime w pdf \<noteq> None"
  by (induction pdfs arbitrary: c) (auto split: option.splits)

lemma record_mtimes_idem:
  assumes "record_mtimes w pdfs c = Inr c'"
  shows "record_mtimes w pdfs c' = Inr c'"
  by (rule record_mtimes_unchanged)
     (auto dest: record_mtimes_readable[OF assms] simp: record_mtimes_recorded[OF assms])


lemma pdf_check_deleted_missing:
  "\<not> set deleted \<subseteq> fst ` set c \<Longrightarrow> pdf_check_deleted deleted wm c = Inl KeyError"
  by (cases "deleted = []") (auto simp: pdf_check_deleted_def del_all_missing)

lemma full_index_total:
  assumes "\<forall>pdf \<in> set all_pdfs. getmtime w pdf \<noteq> None"
  shows "\<exists>c'. full_index w all_pdfs c =
            Inr (merge_token_maps (map (extract_tokens_from_pdf w) all_pdfs), c')
          \<and> record_mtimes w all_pdfs c = Inr c'"
proof -
  from record_mtimes_total[OF assms] obtain c' where "record_mtimes w all_pdfs c = Inr c'"
    by blast
  then show ?thesis by (simp add: full_index_def)
qed

lemma pdf_check_add_total:
  assumes "\<forall>pdf \<in> set new_pdfs. getmtime w pdf \<noteq> None"
  shows "\<exists>c'. pdf_check_add w new_pdfs wm c =
            Inr (if new_pdfs = [] then wm
                 else update_locations wm
                        (merge_token_maps (map (extract_tokens_from_pdf w) new_pdfs)), c')
          \<and> record_mtimes w new_pdfs c = Inr c'"
proof -
  from record_mtimes_total[OF assms] obtain c' where c': "record_mtimes w new_pdfs c = Inr c'"
    by blast
  then show ?thesis by (cases "new_pdfs = []") (auto simp: pdf_check_add_def)
qed

subsection \<open>Saved files and evaluation on concrete files\<close>

lemma record_mtimes_fails:
  "\<exists>pdf \<in> set pdfs. getmtime w pdf = None \<Longrightarrow> record_mtimes w pdfs c = Inl OSError"
  by (induction pdfs arbitrary: c) (auto split: option.splits)

lemma merged_at_extracts:
  "merged_at (map (extract_tokens_from_pdf w) pdfs) tok =
     (\<Union>pdf \<in> set pdfs. occurrences pdf (pages_before_failure (open_pdf w pdf)) tok)"
proof -
  have "(case extract_tokens_from_pdf w pdf tok of None \<Rightarrow> {} | Some s \<Rightarrow> s)
        = occurrences pdf (pages_before_failure (open_pdf w pdf)) tok" for pdf
    by (simp add: extract_apply)
  then show ?thesis by (simp add: merged_at_def)
qed

lemma merged_extracts_apply:
  "merge_token_maps (map (extract_tokens_from_pdf w) pdfs) tok =
     (if \<exists>pdf \<in> set pdfs. occurrences pdf (pages_before_failure (open_pdf w pdf)) tok \<noteq> {}
      then Some (\<Union>pdf \<in> set pdfs. occurrences pdf (pages_before_failure (open_pdf w pdf)) tok)
      else None)"
proof -
  have "(\<exists>tm \<in> set (map (extract_tokens_from_pdf w) pdfs). tm tok \<noteq> None) \<longleftrightarrow>
        (\<exists>pdf \<in> set pdfs. occurrences pdf (pages_before_failure (open_pdf w pdf)) tok \<noteq> {})"
    by (auto simp: extract_apply split: if_splits)
  then show ?thesis
    unfolding merge_token_maps_apply merged_at_extracts by simp
qed

lemma file_locations_empty: "file_locations Map.empty = {}"
  by (simp add: file_locations_def)

lemma file_locations_upd:
  "file_locations (fp(doc \<mapsto> pages)) =
     {loc \<in> file_locations fp. fst loc \<noteq> doc} \<union> Pair doc ` set pages"
  by (auto simp: file_locations_def split: if_splits)

lemma file_locations_structured:
  assumes "\<forall>doc. finite (pages_of locs doc)"
  shows "file_locations (\<lambda>file. if file \<in> fst ` locs
            then Some (sorted_list_of_set (pages_of locs file)) else None) = locs"
proof -
  have "set (sorted_list_of_set (pages_of locs doc)) = pages_of locs doc" for doc
    using assms by simp
  then show ?thesis
    by (auto simp: file_locations_def pages_of_def image_iff split: if_splits) force+
qed

lemma loaded_structured_output:
  assumes "docs_within D wm"
  shows "loaded_word_map (structured_output wm) tok =
           (case wm tok of None \<Rightarrow> None | Some locs \<Rightarrow> if locs = {} then None else Some locs)"
proof (cases "wm tok")
  case None
  then show ?thesis by (simp add: loaded_word_map_def structured_output_def)
next
  case (Some locs)
  with assms have "\<forall>doc. finite (pages_of locs doc)" by (auto simp: docs_within_def)
  from file_locations_structured[OF this] Some show ?thesis
    by (simp add: loaded_word_map_def structured_output_def)
qed

lemma structured_output_None: "wm tok = None \<Longrightarrow> structured_output wm tok = None"
  by (simp add: structured_output_def)

lemma structured_output_Some:
  "wm tok = Some locs \<Longrightarrow> locs \<noteq> {} \<Longrightarrow>
   structured_output wm tok =
     Some (\<lambda>file. if file \<in> fst ` locs
                  then Some (sorted_list_of_set (pages_of locs file)) else None)"
  by (simp add: structured_output_def)

lemmas run_defs = build_word_map_with_cache_def update_index_def full_index_def
  check_counts_def check_modified_def pdf_check_add_def pdf_check_deleted_def
  save_word_map_json_def save_cache_def load_cache_def load_existing_word_map_json_def
  sample_world_def no_checkpoint_def checkpoint_B_def Let_def

lemmas index_defs = loaded_word_map_def structured_output_def
  update_locations_apply merge_token_maps_apply merged_at_def
  file_locations_empty file_locations_upd extract_tokens_from_pdf_def sample_pdfs_def
  text_page_def unreadable_page_def page_tokens_def add_tokens_def add_location_def
  pages_of_empty pages_of_insert

lemma extract_B:
  "extract_tokens_from_pdf (sample_world names) ''B.pdf'' = [''y'' \<mapsto> {(''B.pdf'', 1)}]"
  by (simp add: extract_tokens_from_pdf_def sample_world_def sample_pdfs_def text_page_def
      page_tokens_def add_tokens_def add_location_def)

lemma cold_start_B:
  "build_word_map_with_cache (sample_world [''B.pdf'']) no_checkpoint = (checkpoint_B, Inr True)"
proof -
  have "structured_output (merge_token_maps [extract_tokens_from_pdf (sample_world [''B.pdf'']) ''B.pdf'']) tok
        = [''y'' \<mapsto> [''B.pdf'' \<mapsto> [1]]] tok" for tok
    unfolding extract_B
    by (auto simp: structured_output_def merge_token_maps_apply merged_at_def
        pages_of_empty pages_of_insert)
  then have "structured_output (merge_token_maps [extract_tokens_from_pdf (sample_world [''B.pdf'']) ''B.pdf''])
        = [''y'' \<mapsto> [''B.pdf'' \<mapsto> [1]]]"
    by (rule ext)
  then show ?thesis by (simp add: run_defs)
qed

section \<open>The claims\<close>

subsection \<open>C1: additions and removals in one run\<close>

text \<open>
  C1 says that a run with a prior checkpoint extracts every added document and purges
  every removed one, also when both happen in the same run. The script chooses between
  \<^verbatim>\<open>pdf_check_add\<close> and \<^verbatim>\<open>pdf_check_deleted\<close> by the sign of the difference of the two
  set sizes, so it never does both. On the checkpoint left by a folder that held
  \<^verbatim>\<open>B.pdf\<close>, with \<^verbatim>\<open>B.pdf\<close> removed and \<^verbatim>\<open>C.pdf\<close> and \<^verbatim>\<open>D.pdf\<close> added, the run completes
  and \<^verbatim>\<open>B.pdf\<close> stays in the saved cache and in the saved index; with only \<^verbatim>\<open>C.pdf\<close> added
  the sizes are equal, the new document is taken for a modified one, and the run ends
  with \<^verbatim>\<open>KeyError\<close>.
\<close>

theorem simultaneous_change_leaves_removed:
  "snd (build_word_map_with_cache (sample_world [''C.pdf'', ''D.pdf'']) checkpoint_B) = Inr True
   \<and> cache_file (fst (build_word_map_with_cache (sample_world [''C.pdf'', ''D.pdf'']) checkpoint_B))
       = Content [(''B.pdf'', 1), (''C.pdf'', 1), (''D.pdf'', 1)]
   \<and> (\<exists>data file_pages.
         word_map_file (fst (build_word_map_with_cache (sample_world [''C.pdf'', ''D.pdf''])
           checkpoint_B)) = Content data
         \<and> data ''y'' = Some file_pages \<and> file_pages ''B.pdf'' = Some [1])
   \<and> build_word_map_with_cache (sample_world [''C.pdf'']) checkpoint_B
       = (checkpoint_B, Inl KeyError)"
proof (intro conjI)
  show "snd (build_word_map_with_cache (sample_world [''C.pdf'', ''D.pdf'']) checkpoint_B) = Inr True"
    by (simp add: run_defs)
  show "cache_file (fst (build_word_map_with_cache (sample_world [''C.pdf'', ''D.pdf'']) checkpoint_B))
       = Content [(''B.pdf'', 1), (''C.pdf'', 1), (''D.pdf'', 1)]"
    by (simp add: run_defs)
  show "\<exists>data file_pages.
         word_map_file (fst (build_word_map_with_cache (sample_world [''C.pdf'', ''D.pdf''])
           checkpoint_B)) = Content data
         \<and> data ''y'' = Some file_pages \<and> file_pages ''B.pdf'' = Some [1]"
    by (simp add: run_defs index_defs)
  show "build_word_map_with_cache (sample_world [''C.pdf'']) checkpoint_B
       = (checkpoint_B, Inl KeyError)"
    by (simp add: run_defs)
qed

subsection \<open>C2: the pruning invariant of the saved files\<close>

text \<open>
  C2 says that after every run that completes and saves, every document of the saved
  index is a key of the saved cache. A run that could write the index and not the cache
  leaves \<^verbatim>\<open>C.pdf\<close> in the index only; when \<^verbatim>\<open>C.pdf\<close> then leaves the folder, the next run
  sees equal sizes and nothing modified, completes, and saves an index that still refers
  to \<^verbatim>\<open>C.pdf\<close> next to a cache without it.
\<close>

theorem dangling_reference_persisted_counterexample:
  "snd (build_word_map_with_cache ((sample_world [''B.pdf'', ''C.pdf''])\<lparr>cache_write := OpenFails\<rparr>)
        checkpoint_B) = Inl OSError
   \<and> snd (build_word_map_with_cache (sample_world [''B.pdf''])
        (fst (build_word_map_with_cache
          ((sample_world [''B.pdf'', ''C.pdf''])\<lparr>cache_write := OpenFails\<rparr>) checkpoint_B)))
       = Inr True
   \<and> (\<exists>data c.
        word_map_file (fst (build_word_map_with_cache (sample_world [''B.pdf''])
          (fst (build_word_map_with_cache
            ((sample_world [''B.pdf'', ''C.pdf''])\<lparr>cache_write := OpenFails\<rparr>) checkpoint_B))))
          = Content data
        \<and> cache_file (fst (build_word_map_with_cache (sample_world [''B.pdf''])
          (fst (build_word_map_with_cache
            ((sample_world [''B.pdf'', ''C.pdf''])\<lparr>cache_write := OpenFails\<rparr>) checkpoint_B))))
          = Content c
        \<and> c = [(''B.pdf'', 1)]
        \<and> (\<exists>file_pages. data ''z'' = Some file_pages \<and> file_pages ''C.pdf'' = Some [1])
        \<and> \<not> pruning_invariant data c)"
proof -
  let ?wf = "(sample_world [''B.pdf'', ''C.pdf''])\<lparr>cache_write := OpenFails\<rparr>"
  let ?d1 = "fst (build_word_map_with_cache ?wf checkpoint_B)"
  let ?w = "sample_world [''B.pdf'']"
  let ?d2 = "fst (build_word_map_with_cache ?w ?d1)"
  let ?wm1 = "update_locations (loaded_word_map [''y'' \<mapsto> [''B.pdf'' \<mapsto> [1]]])
                (merge_token_maps (map (extract_tokens_from_pdf ?wf) [''C.pdf'']))"
  have r1: "snd (build_word_map_with_cache ?wf checkpoint_B) = Inl OSError"
    by (simp add: run_defs)
  have u1: "update_index ?wf checkpoint_B = Inr (?wm1, [(''B.pdf'', 1), (''C.pdf'', 1)])"
    by (simp add: run_defs)
  have f1: "word_map_file ?d1 = Content (structured_output ?wm1)"
    by (simp add: run_defs)
  have c1: "cache_file ?d1 = Content [(''B.pdf'', 1)]"
    by (simp add: run_defs)
  have z: "?wm1 ''z'' = Some {(''C.pdf'', 1)}"
    by (simp add: index_defs sample_world_def)
  have "docs_within (fst ` set [(''B.pdf'', 1::int), (''C.pdf'', 1)] \<union> dangling checkpoint_B) ?wm1"
    by (rule update_index_inv[OF u1])
  from loaded_structured_output[OF this, of "''z''"] z
  have l: "loaded_word_map (structured_output ?wm1) ''z'' = Some {(''C.pdf'', 1)}"
    by simp
  have u2: "update_index ?w ?d1
            = Inr (loaded_word_map (structured_output ?wm1), [(''B.pdf'', 1)])"
    using c1 f1
    by (simp add: update_index_def load_cache_def load_existing_word_map_json_def
        check_counts_def check_modified_def sample_world_def Let_def)
  then have b2: "build_word_map_with_cache ?w ?d1
      = (?d1\<lparr>word_map_file := Content (structured_output (loaded_word_map (structured_output ?wm1))),
             cache_file := Content [(''B.pdf'', 1)]\<rparr>, Inr True)"
    by (simp add: build_word_map_with_cache_def save_word_map_json_def save_cache_def
        sample_world_def)
  let ?data = "structured_output (loaded_word_map (structured_output ?wm1))"
  have fz: "?data ''z'' = Some (\<lambda>file. if file \<in> fst ` {(''C.pdf'', 1::nat)}
                  then Some (sorted_list_of_set (pages_of {(''C.pdf'', 1)} file)) else None)"
    using structured_output_Some[of "loaded_word_map (structured_output ?wm1)" "''z''"
        "{(''C.pdf'', 1)}"] l by simp
  have e: "\<exists>file_pages. ?data ''z'' = Some file_pages \<and> file_pages ''C.pdf'' = Some [1]"
    unfolding fz by (simp add: pages_of_insert pages_of_empty)
  then have n: "\<not> pruning_invariant ?data [(''B.pdf'', 1)]"
    by (auto simp: pruning_invariant_def)
  have "snd (build_word_map_with_cache ?w ?d1) = Inr True" by (simp add: b2)
  moreover have "word_map_file ?d2 = Content ?data" by (simp add: b2)
  moreover have "cache_file ?d2 = Content [(''B.pdf'', 1)]" by (simp add: b2)
  ultimately show ?thesis using r1 e n by blast
qed

text \<open>
  C2, amended: after every run that completes and saves, every token of the saved index
  has a document and every document of a token has a page (no token maps to an empty
  set), and every document of the saved index is a key of the saved cache or was
  dangling before the run, that is, referred to by the prior index file without being a
  key of the prior cache file: the dangling documents of the saved files are among those
  of the prior files. So when the prior files have no dangling document, and when there
  is no prior index file, every document of the saved index is a key of the saved cache.
\<close>

theorem pruning_invariant_persisted:
  assumes "build_word_map_with_cache w d = (d', Inr r)"
  shows "\<exists>data c. word_map_file d' = Content data \<and> cache_file d' = Content c
     \<and> (\<forall>tok file_pages. data tok = Some file_pages \<longrightarrow>
           dom file_pages \<noteq> {} \<and>
           (\<forall>doc pages. file_pages doc = Some pages \<longrightarrow>
              pages \<noteq> [] \<and> (doc \<in> fst ` set c \<or> doc \<in> dangling d)))
     \<and> dangling d' \<subseteq> dangling d
     \<and> (dangling d = {} \<longrightarrow> pruning_invariant data c)
     \<and> (word_map_file d = Absent \<longrightarrow> pruning_invariant data c)"
proof -
  from build_completed[OF assms] obtain wm c where
    u: "update_index w d = Inr (wm, c)" and
    d': "d' = d\<lparr>word_map_file := Content (structured_output wm), cache_file := Content c\<rparr>"
    by blast
  let ?data = "structured_output wm"
  have inv: "docs_within (fst ` set c \<union> dangling d) wm" by (rule update_index_inv[OF u])
  have entry: "dom file_pages \<noteq> {} \<and>
           (\<forall>doc pages. file_pages doc = Some pages \<longrightarrow>
              pages \<noteq> [] \<and> (doc \<in> fst ` set c \<or> doc \<in> dangling d))"
    if "?data tok = Some file_pages" for tok file_pages
    using structured_output_entry[OF inv that] by simp
  have "indexed_docs ?data \<subseteq> fst ` set c \<union> dangling d"
    using entry by (fastforce simp: indexed_docs_def)
  then have sub: "dangling d' \<subseteq> dangling d"
    by (auto simp: dangling_def d')
  have p: "pruning_invariant ?data c" if "dangling d = {}"
    using entry that by (simp add: pruning_invariant_def)
  have "dangling d = {}" if "word_map_file d = Absent"
    using that by (simp add: dangling_def)
  with p have p': "word_map_file d = Absent \<longrightarrow> pruning_invariant ?data c" by blast
  have "word_map_file d' = Content ?data" "cache_file d' = Content c" by (simp_all add: d')
  with entry sub p p' show ?thesis by blast
qed

text \<open>
  The amended statement on a run that adds \<^verbatim>\<open>C.pdf\<close> to the checkpoint of \<^verbatim>\<open>B.pdf\<close>.
\<close>

theorem pruning_invariant_persisted_witness:
  "snd (build_word_map_with_cache (sample_world [''B.pdf'', ''C.pdf'']) checkpoint_B) = Inr True
   \<and> dangling checkpoint_B = {}
   \<and> cache_file (fst (build_word_map_with_cache (sample_world [''B.pdf'', ''C.pdf'']) checkpoint_B))
       = Content [(''B.pdf'', 1), (''C.pdf'', 1)]
   \<and> (\<exists>data c.
         word_map_file (fst (build_word_map_with_cache (sample_world [''B.pdf'', ''C.pdf''])
           checkpoint_B)) = Content data
         \<and> cache_file (fst (build_word_map_with_cache (sample_world [''B.pdf'', ''C.pdf''])
           checkpoint_B)) = Content c
         \<and> pruning_invariant data c)
   \<and> dangling (fst (build_word_map_with_cache (sample_world [''B.pdf'', ''C.pdf'']) checkpoint_B))
       = {}"
proof -
  let ?run = "build_word_map_with_cache (sample_world [''B.pdf'', ''C.pdf'']) checkpoint_B"
  have s: "snd ?run = Inr True" by (simp add: run_defs)
  then have r: "?run = (fst ?run, Inr True)" by (metis prod.collapse)
  have c: "cache_file (fst ?run) = Content [(''B.pdf'', 1), (''C.pdf'', 1)]"
    by (simp add: run_defs)
  have "indexed_docs [''y'' \<mapsto> [''B.pdf'' \<mapsto> [1]]] \<subseteq> {''B.pdf''}"
    by (auto simp: indexed_docs_def split: if_splits)
  then have g: "dangling checkpoint_B = {}"
    by (auto simp: dangling_def checkpoint_B_def)
  from pruning_invariant_persisted[OF r] g s c show ?thesis by blast
qed

subsection \<open>C3: a document whose extraction fails\<close>

text \<open>
  C3 says that a document whose extraction fails contributes an empty set of
  occurrences, that it does not abort the batch, and that its modification time is
  still recorded. The \<^verbatim>\<open>try\<close> of \<^verbatim>\<open>extract_tokens_from_pdf\<close> encloses the loop over the pages, so
  the pages read before the failing one stay in the result: \<^verbatim>\<open>E.pdf\<close> fails at its second
  page and still gives the token of its first. And \<^verbatim>\<open>getmtime\<close> in \<^verbatim>\<open>pdf_check_add\<close> is
  outside any \<^verbatim>\<open>try\<close>: for \<^verbatim>\<open>F.pdf\<close>, which cannot be opened and whose modification time
  cannot be read, the batch ends with \<^verbatim>\<open>OSError\<close>.
\<close>

theorem failed_extraction_keeps_pages_counterexample:
  "open_pdf (sample_world [''E.pdf'']) ''E.pdf''
     = Pdf [text_page [''x''], unreadable_page, text_page [''w'']]
   \<and> page_tokens unreadable_page = None
   \<and> extract_tokens_from_pdf (sample_world [''E.pdf'']) ''E.pdf'' ''x'' = Some {(''E.pdf'', 1)}
   \<and> extract_tokens_from_pdf (sample_world [''E.pdf'']) ''E.pdf'' \<noteq> Map.empty
   \<and> open_pdf (vanished_world [''A.pdf'', ''F.pdf'']) ''F.pdf'' = OpenRaises
   \<and> getmtime (vanished_world [''A.pdf'', ''F.pdf'']) ''F.pdf'' = None
   \<and> pdf_check_add (vanished_world [''A.pdf'', ''F.pdf'']) [''A.pdf'', ''F.pdf''] Map.empty []
       = Inl OSError"
proof -
  have x: "extract_tokens_from_pdf (sample_world [''E.pdf'']) ''E.pdf'' ''x'' = Some {(''E.pdf'', 1)}"
    by (simp add: extract_tokens_from_pdf_def sample_world_def sample_pdfs_def text_page_def
        unreadable_page_def page_tokens_def add_tokens_def add_location_def)
  then have "extract_tokens_from_pdf (sample_world [''E.pdf'']) ''E.pdf'' \<noteq> Map.empty"
    by (metis option.distinct(1))
  moreover have "page_tokens unreadable_page = None"
    by (simp add: page_tokens_def unreadable_page_def)
  moreover have "open_pdf (sample_world [''E.pdf'']) ''E.pdf''
     = Pdf [text_page [''x''], unreadable_page, text_page [''w'']]"
    by (simp add: sample_world_def sample_pdfs_def)
  moreover have "open_pdf (vanished_world [''A.pdf'', ''F.pdf'']) ''F.pdf'' = OpenRaises"
    "getmtime (vanished_world [''A.pdf'', ''F.pdf'']) ''F.pdf'' = None"
    by (simp_all add: vanished_world_def)
  moreover have "pdf_check_add (vanished_world [''A.pdf'', ''F.pdf'']) [''A.pdf'', ''F.pdf''] Map.empty []
       = Inl OSError"
    by (simp add: pdf_check_add_def vanished_world_def)
  ultimately show ?thesis using x by blast
qed

text \<open>
  C3, amended: an exception raised while a document is opened or one of its pages is
  read is caught inside \<^verbatim>\<open>extract_tokens_from_pdf\<close>; every document contributes, for every
  token, exactly the token's locations on the pages before the first page at which an
  exception is raised (none when the document cannot be opened). When the modification
  time of a document of the batch cannot be read, \<^verbatim>\<open>pdf_check_add\<close> ends with \<^verbatim>\<open>OSError\<close>.
  When all of them can be read, \<^verbatim>\<open>pdf_check_add\<close> returns; for every token the resulting
  index holds the union of its former locations and of the documents' contributions;
  every document's modification time is recorded in the cache; and a later scan does
  not select a document whose time on disk and in the cache are still those.
\<close>

theorem extraction_failure_isolated:
  "(\<forall>pdf tok.
      extract_tokens_from_pdf w pdf tok =
        (if occurrences pdf (pages_before_failure (open_pdf w pdf)) tok = {} then None
         else Some (occurrences pdf (pages_before_failure (open_pdf w pdf)) tok)))
   \<and> ((\<exists>pdf \<in> set new_pdfs. getmtime w pdf = None) \<longrightarrow>
        pdf_check_add w new_pdfs word_map c = Inl OSError)
   \<and> ((\<forall>pdf \<in> set new_pdfs. getmtime w pdf \<noteq> None) \<longrightarrow>
        (\<exists>word_map' c'.
           pdf_check_add w new_pdfs word_map c = Inr (word_map', c')
           \<and> (\<forall>tok. word_map' tok =
                 (if \<exists>pdf \<in> set new_pdfs.
                       occurrences pdf (pages_before_failure (open_pdf w pdf)) tok \<noteq> {}
                  then Some ((case word_map tok of None \<Rightarrow> {} | Some locs \<Rightarrow> locs)
                         \<union> (\<Union>pdf \<in> set new_pdfs.
                              occurrences pdf (pages_before_failure (open_pdf w pdf)) tok))
                  else word_map tok))
           \<and> (\<forall>pdf \<in> set new_pdfs.
                 map_of c' pdf = getmtime w pdf
                 \<and> (\<forall>w' c'' all_pdfs modified_pdfs.
                       getmtime w' pdf = getmtime w pdf \<and> map_of c'' pdf = map_of c' pdf
                       \<and> scan_modified w' c'' all_pdfs = Inr modified_pdfs
                       \<longrightarrow> pdf \<notin> set modified_pdfs))))"
proof (intro conjI allI impI)
  fix pdf tok
  show "extract_tokens_from_pdf w pdf tok =
        (if occurrences pdf (pages_before_failure (open_pdf w pdf)) tok = {} then None
         else Some (occurrences pdf (pages_before_failure (open_pdf w pdf)) tok))"
    by (rule extract_apply)
next
  assume h: "\<exists>pdf \<in> set new_pdfs. getmtime w pdf = None"
  then have "new_pdfs \<noteq> []" by auto
  with record_mtimes_fails[OF h, of c] show "pdf_check_add w new_pdfs word_map c = Inl OSError"
    by (simp add: pdf_check_add_def)
next
  assume h: "\<forall>pdf \<in> set new_pdfs. getmtime w pdf \<noteq> None"
  let ?occ = "\<lambda>pdf tok. occurrences pdf (pages_before_failure (open_pdf w pdf)) tok"
  let ?wm' = "if new_pdfs = [] then word_map
              else update_locations word_map
                     (merge_token_maps (map (extract_tokens_from_pdf w) new_pdfs))"
  from pdf_check_add_total[OF h] obtain c' where
    add: "pdf_check_add w new_pdfs word_map c = Inr (?wm', c')" and
    rm: "record_mtimes w new_pdfs c = Inr c'"
    by blast
  have pin: "?wm' tok =
                 (if \<exists>pdf \<in> set new_pdfs. ?occ pdf tok \<noteq> {}
                  then Some ((case word_map tok of None \<Rightarrow> {} | Some locs \<Rightarrow> locs)
                         \<union> (\<Union>pdf \<in> set new_pdfs. ?occ pdf tok))
                  else word_map tok)" for tok
  proof (cases "new_pdfs = []")
    case True
    then show ?thesis by simp
  next
    case False
    then show ?thesis
      by (simp add: update_locations_apply merged_extracts_apply)
  qed
  have rec: "map_of c' pdf = getmtime w pdf
                 \<and> (\<forall>w' c'' all_pdfs modified_pdfs.
                       getmtime w' pdf = getmtime w pdf \<and> map_of c'' pdf = map_of c' pdf
                       \<and> scan_modified w' c'' all_pdfs = Inr modified_pdfs
                       \<longrightarrow> pdf \<notin> set modified_pdfs)"
    if pdf: "pdf \<in> set new_pdfs" for pdf
  proof (intro conjI allI impI)
    show "map_of c' pdf = getmtime w pdf" by (rule record_mtimes_recorded[OF rm pdf])
  next
    fix w' c'' all_pdfs modified_pdfs
    assume a: "getmtime w' pdf = getmtime w pdf \<and> map_of c'' pdf = map_of c' pdf
                \<and> scan_modified w' c'' all_pdfs = Inr modified_pdfs"
    then have "set modified_pdfs = {p \<in> set all_pdfs. map_of c'' p \<noteq> getmtime w' p}"
      using scan_modified_set by blast
    moreover have "map_of c'' pdf = getmtime w' pdf"
      using a record_mtimes_recorded[OF rm pdf] by simp
    ultimately show "pdf \<notin> set modified_pdfs" by simp
  qed
  from add pin rec
  show "\<exists>word_map' c'.
           pdf_check_add w new_pdfs word_map c = Inr (word_map', c')
           \<and> (\<forall>tok. word_map' tok =
                 (if \<exists>pdf \<in> set new_pdfs. ?occ pdf tok \<noteq> {}
                  then Some ((case word_map tok of None \<Rightarrow> {} | Some locs \<Rightarrow> locs)
                         \<union> (\<Union>pdf \<in> set new_pdfs. ?occ pdf tok))
                  else word_map tok))
           \<and> (\<forall>pdf \<in> set new_pdfs.
                 map_of c' pdf = getmtime w pdf
                 \<and> (\<forall>w' c'' all_pdfs modified_pdfs.
                       getmtime w' pdf = getmtime w pdf \<and> map_of c'' pdf = map_of c' pdf
                       \<and> scan_modified w' c'' all_pdfs = Inr modified_pdfs
                       \<longrightarrow> pdf \<notin> set modified_pdfs))"
    by blast
qed

text \<open>
  The amended statement on a batch of \<^verbatim>\<open>E.pdf\<close>, which fails at its second page, and
  \<^verbatim>\<open>A.pdf\<close>, and on a batch with \<^verbatim>\<open>F.pdf\<close>.
\<close>

theorem extraction_failure_isolated_witness:
  "pages_before_failure (open_pdf (sample_world [''E.pdf'', ''A.pdf'']) ''E.pdf'') = [[''x'']]
   \<and> occurrences ''E.pdf'' [[''x'']] ''x'' = {(''E.pdf'', 1)}
   \<and> extract_tokens_from_pdf (sample_world [''E.pdf'', ''A.pdf'']) ''E.pdf'' ''x''
       = Some {(''E.pdf'', 1)}
   \<and> extract_tokens_from_pdf (sample_world [''E.pdf'', ''A.pdf'']) ''E.pdf'' ''w'' = None
   \<and> (\<exists>word_map' c'.
        pdf_check_add (sample_world [''E.pdf'', ''A.pdf'']) [''E.pdf'', ''A.pdf''] Map.empty []
          = Inr (word_map', c')
        \<and> word_map' ''x'' = Some {(''E.pdf'', 1), (''A.pdf'', 1)}
        \<and> map_of c' ''E.pdf'' = Some 1 \<and> map_of c' ''A.pdf'' = Some 1)
   \<and> pages_before_failure (open_pdf (vanished_world [''A.pdf'', ''F.pdf'']) ''F.pdf'') = []
   \<and> extract_tokens_from_pdf (vanished_world [''A.pdf'', ''F.pdf'']) ''F.pdf'' ''x'' = None
   \<and> getmtime (vanished_world [''A.pdf'', ''F.pdf'']) ''F.pdf'' = None
   \<and> pdf_check_add (vanished_world [''A.pdf'', ''F.pdf'']) [''A.pdf'', ''F.pdf''] Map.empty []
       = Inl OSError"
proof -
  let ?w = "sample_world [''E.pdf'', ''A.pdf'']"
  let ?v = "vanished_world [''A.pdf'', ''F.pdf'']"
  note inst = extraction_failure_isolated[of ?w "[''E.pdf'', ''A.pdf'']" Map.empty "[]"]
  have pE: "pages_before_failure (open_pdf ?w ''E.pdf'') = [[''x'']]"
    by (simp add: pages_before_failure_def sample_world_def sample_pdfs_def text_page_def
        unreadable_page_def page_tokens_def)
  have pA: "pages_before_failure (open_pdf ?w ''A.pdf'') = [[''x'', ''y'']]"
    by (simp add: pages_before_failure_def sample_world_def sample_pdfs_def text_page_def
        page_tokens_def)
  have oE: "occurrences ''E.pdf'' [[''x'']] ''x'' = {(''E.pdf'', 1)}"
    by (auto simp: occurrences_def)
  have oEw: "occurrences ''E.pdf'' [[''x'']] ''w'' = {}"
    by (auto simp: occurrences_def)
  have oA: "occurrences ''A.pdf'' [[''x'', ''y'']] ''x'' = {(''A.pdf'', 1)}"
    by (auto simp: occurrences_def)
  from inst have "extract_tokens_from_pdf ?w ''E.pdf'' tok =
        (if occurrences ''E.pdf'' (pages_before_failure (open_pdf ?w ''E.pdf'')) tok = {} then None
         else Some (occurrences ''E.pdf'' (pages_before_failure (open_pdf ?w ''E.pdf'')) tok))"
    for tok by blast
  then have eE: "extract_tokens_from_pdf ?w ''E.pdf'' ''x'' = Some {(''E.pdf'', 1)}"
    and eEw: "extract_tokens_from_pdf ?w ''E.pdf'' ''w'' = None"
    by (simp_all add: pE oE oEw)
  have m: "\<forall>pdf \<in> set [''E.pdf'', ''A.pdf'']. getmtime ?w pdf \<noteq> None"
    by (simp add: sample_world_def)
  with inst obtain word_map' c' where
    add: "pdf_check_add ?w [''E.pdf'', ''A.pdf''] Map.empty [] = Inr (word_map', c')" and
    pin: "\<forall>tok. word_map' tok =
                 (if \<exists>pdf \<in> set [''E.pdf'', ''A.pdf''].
                       occurrences pdf (pages_before_failure (open_pdf ?w pdf)) tok \<noteq> {}
                  then Some ((case Map.empty tok of None \<Rightarrow> {} | Some locs \<Rightarrow> locs)
                         \<union> (\<Union>pdf \<in> set [''E.pdf'', ''A.pdf''].
                              occurrences pdf (pages_before_failure (open_pdf ?w pdf)) tok))
                  else Map.empty tok)" and
    rec: "\<forall>pdf \<in> set [''E.pdf'', ''A.pdf'']. map_of c' pdf = getmtime ?w pdf"
    by blast
  from pin have "word_map' ''x'' = Some {(''E.pdf'', 1), (''A.pdf'', 1)}"
    by (simp add: pE pA oE oA insert_commute)
  moreover from rec have "map_of c' ''E.pdf'' = Some 1" "map_of c' ''A.pdf'' = Some 1"
    by (simp_all add: sample_world_def)
  ultimately have ex: "\<exists>word_map' c'.
        pdf_check_add ?w [''E.pdf'', ''A.pdf''] Map.empty [] = Inr (word_map', c')
        \<and> word_map' ''x'' = Some {(''E.pdf'', 1), (''A.pdf'', 1)}
        \<and> map_of c' ''E.pdf'' = Some 1 \<and> map_of c' ''A.pdf'' = Some 1"
    using add by blast
  note instv = extraction_failure_isolated[of ?v "[''A.pdf'', ''F.pdf'']" Map.empty "[]"]
  have pF: "pages_before_failure (open_pdf ?v ''F.pdf'') = []"
    by (simp add: pages_before_failure_def vanished_world_def)
  from instv have "extract_tokens_from_pdf ?v ''F.pdf'' ''x'' =
        (if occurrences ''F.pdf'' (pages_before_failure (open_pdf ?v ''F.pdf'')) ''x'' = {} then None
         else Some (occurrences ''F.pdf'' (pages_before_failure (open_pdf ?v ''F.pdf'')) ''x''))"
    by blast
  then have eF: "extract_tokens_from_pdf ?v ''F.pdf'' ''x'' = None"
    by (simp add: pF occurrences_Nil)
  have g: "getmtime ?v ''F.pdf'' = None" by (simp add: vanished_world_def)
  then have "\<exists>pdf \<in> set [''A.pdf'', ''F.pdf'']. getmtime ?v pdf = None" by simp
  with instv
  have "pdf_check_add ?v [''A.pdf'', ''F.pdf''] Map.empty [] = Inl OSError" by blast
  with pE oE eE eEw ex pF eF g show ?thesis by blast
qed

subsection \<open>C4: a run that fails\<close>

text \<open>
  C4 says that a run that fails leaves both files as they were. The script writes the
  index and then the cache, each with \<^verbatim>\<open>open(..., "w")\<close> and \<^verbatim>\<open>json.dump\<close>: when the index
  is written and the cache file cannot be opened, the run fails with the new index next
  to the old cache; when the dump of the index fails, the run fails with a truncated
  index.
\<close>

theorem failed_save_half_updates_counterexample:
  "snd (build_word_map_with_cache ((sample_world [''B.pdf'', ''C.pdf''])\<lparr>cache_write := OpenFails\<rparr>)
        checkpoint_B) = Inl OSError
   \<and> cache_file (fst (build_word_map_with_cache
        ((sample_world [''B.pdf'', ''C.pdf''])\<lparr>cache_write := OpenFails\<rparr>) checkpoint_B))
       = Content [(''B.pdf'', 1)]
   \<and> (\<exists>data file_pages.
        word_map_file (fst (build_word_map_with_cache
          ((sample_world [''B.pdf'', ''C.pdf''])\<lparr>cache_write := OpenFails\<rparr>) checkpoint_B))
          = Content data
        \<and> data ''z'' = Some file_pages \<and> file_pages ''C.pdf'' = Some [1])
   \<and> (\<exists>data. word_map_file checkpoint_B = Content data \<and> data ''z'' = None)
   \<and> fst (build_word_map_with_cache
        ((sample_world [''B.pdf'', ''C.pdf''])\<lparr>cache_write := OpenFails\<rparr>) checkpoint_B)
       \<noteq> checkpoint_B
   \<and> build_word_map_with_cache
        ((sample_world [''B.pdf'', ''C.pdf''])\<lparr>word_map_write := DumpFails\<rparr>) checkpoint_B
       = (checkpoint_B\<lparr>word_map_file := Truncated\<rparr>, Inl OSError)"
proof -
  let ?run = "build_word_map_with_cache
        ((sample_world [''B.pdf'', ''C.pdf''])\<lparr>cache_write := OpenFails\<rparr>) checkpoint_B"
  have a: "snd ?run = Inl OSError" by (simp add: run_defs)
  have b: "cache_file (fst ?run) = Content [(''B.pdf'', 1)]" by (simp add: run_defs)
  have c: "\<exists>data file_pages. word_map_file (fst ?run) = Content data
        \<and> data ''z'' = Some file_pages \<and> file_pages ''C.pdf'' = Some [1]"
    by (simp add: run_defs index_defs)
  have d: "\<exists>data. word_map_file checkpoint_B = Content data \<and> data ''z'' = None"
    by (simp add: checkpoint_B_def)
  from c d have "word_map_file (fst ?run) \<noteq> word_map_file checkpoint_B"
    by (metis option.distinct(1) stored.inject)
  then have "fst ?run \<noteq> checkpoint_B" by metis
  moreover have "build_word_map_with_cache
        ((sample_world [''B.pdf'', ''C.pdf''])\<lparr>word_map_write := DumpFails\<rparr>) checkpoint_B
       = (checkpoint_B\<lparr>word_map_file := Truncated\<rparr>, Inl OSError)"
    by (simp add: run_defs)
  ultimately show ?thesis using a b c d by blast
qed

text \<open>
  C4, amended: a run that fails before it writes (listing the folder, loading the cache
  or the index, reading a modification time, \<^verbatim>\<open>KeyError\<close>) leaves both files as they were,
  and so does a run that cannot open the index file for writing. Every other failing run
  ends with \<^verbatim>\<open>OSError\<close> and leaves a truncated index next to the old cache (the dump of the
  index fails), or the new index next to the old cache (the cache file cannot be
  opened), or the new index next to a truncated cache (the dump of the cache fails).
\<close>

theorem failed_run_files:
  "(update_index w d = Inl e \<longrightarrow> build_word_map_with_cache w d = (d, Inl e))
   \<and> (build_word_map_with_cache w d = (d', Inl e) \<longrightarrow>
        (update_index w d = Inl e \<and> d' = d)
        \<or> (\<exists>word_map c. update_index w d = Inr (word_map, c) \<and> e = OSError
             \<and> (word_map_write w = OpenFails \<and> d' = d
                \<or> word_map_write w = DumpFails \<and> d' = d\<lparr>word_map_file := Truncated\<rparr>
                \<or> word_map_write w = Written \<and> cache_write w = OpenFails
                    \<and> d' = d\<lparr>word_map_file := Content (structured_output word_map)\<rparr>
                \<or> word_map_write w = Written \<and> cache_write w = DumpFails
                    \<and> d' = d\<lparr>word_map_file := Content (structured_output word_map),
                              cache_file := Truncated\<rparr>)))"
proof (intro conjI impI)
  assume "update_index w d = Inl e"
  then show "build_word_map_with_cache w d = (d, Inl e)"
    by (simp add: build_word_map_with_cache_def)
next
  assume b: "build_word_map_with_cache w d = (d', Inl e)"
  show "(update_index w d = Inl e \<and> d' = d)
        \<or> (\<exists>word_map c. update_index w d = Inr (word_map, c) \<and> e = OSError
             \<and> (word_map_write w = OpenFails \<and> d' = d
                \<or> word_map_write w = DumpFails \<and> d' = d\<lparr>word_map_file := Truncated\<rparr>
                \<or> word_map_write w = Written \<and> cache_write w = OpenFails
                    \<and> d' = d\<lparr>word_map_file := Content (structured_output word_map)\<rparr>
                \<or> word_map_write w = Written \<and> cache_write w = DumpFails
                    \<and> d' = d\<lparr>word_map_file := Content (structured_output word_map),
                              cache_file := Truncated\<rparr>))"
  proof (cases "update_index w d")
    case (Inl e')
    with b show ?thesis by (simp add: build_word_map_with_cache_def)
  next
    case (Inr p)
    obtain wm c where p: "p = (wm, c)" by (cases p)
    show ?thesis
    proof (cases "word_map_write w")
      case Written
      show ?thesis
      proof (cases "cache_write w")
        case Written
        with b Inr p \<open>word_map_write w = Written\<close> show ?thesis
          by (simp add: build_word_map_with_cache_def save_word_map_json_def save_cache_def)
      next
        case OpenFails
        with b Inr p \<open>word_map_write w = Written\<close> show ?thesis
          by (auto simp: build_word_map_with_cache_def save_word_map_json_def save_cache_def)
      next
        case DumpFails
        with b Inr p \<open>word_map_write w = Written\<close> show ?thesis
          by (auto simp: build_word_map_with_cache_def save_word_map_json_def save_cache_def)
      qed
    next
      case OpenFails
      with b Inr p show ?thesis
        by (auto simp: build_word_map_with_cache_def save_word_map_json_def)
    next
      case DumpFails
      with b Inr p show ?thesis
        by (auto simp: build_word_map_with_cache_def save_word_map_json_def)
    qed
  qed
qed

text \<open>
  The amended statement on a run that fails with \<^verbatim>\<open>KeyError\<close> and on one whose dump of the
  cache fails.
\<close>

theorem failed_run_files_witness:
  "update_index (sample_world [''C.pdf'']) checkpoint_B = Inl KeyError
   \<and> build_word_map_with_cache (sample_world [''C.pdf'']) checkpoint_B
       = (checkpoint_B, Inl KeyError)
   \<and> snd (build_word_map_with_cache ((sample_world [''B.pdf'', ''C.pdf''])\<lparr>cache_write := DumpFails\<rparr>)
        checkpoint_B) = Inl OSError
   \<and> (\<exists>word_map c.
        update_index ((sample_world [''B.pdf'', ''C.pdf''])\<lparr>cache_write := DumpFails\<rparr>) checkpoint_B
          = Inr (word_map, c)
        \<and> fst (build_word_map_with_cache
            ((sample_world [''B.pdf'', ''C.pdf''])\<lparr>cache_write := DumpFails\<rparr>) checkpoint_B)
          = checkpoint_B\<lparr>word_map_file := Content (structured_output word_map),
                          cache_file := Truncated\<rparr>)"
proof -
  let ?w = "(sample_world [''B.pdf'', ''C.pdf''])\<lparr>cache_write := DumpFails\<rparr>"
  let ?run = "build_word_map_with_cache ?w checkpoint_B"
  have u: "update_index (sample_world [''C.pdf'']) checkpoint_B = Inl KeyError"
    by (simp add: run_defs)
  have s: "snd ?run = Inl OSError" by (simp add: run_defs)
  then have r: "?run = (fst ?run, Inl OSError)" by (metis prod.collapse)
  have ok: "\<exists>p. update_index ?w checkpoint_B = Inr p" by (simp add: run_defs)
  have wr: "word_map_write ?w = Written" "cache_write ?w = DumpFails"
    by (simp_all add: sample_world_def)
  from failed_run_files[of "sample_world [''C.pdf'']" checkpoint_B KeyError] u
  have k: "build_word_map_with_cache (sample_world [''C.pdf'']) checkpoint_B
       = (checkpoint_B, Inl KeyError)" by blast
  from failed_run_files[of ?w checkpoint_B OSError "fst ?run"] r
  have "(update_index ?w checkpoint_B = Inl OSError \<and> fst ?run = checkpoint_B)
        \<or> (\<exists>word_map c. update_index ?w checkpoint_B = Inr (word_map, c) \<and> OSError = OSError
             \<and> (word_map_write ?w = OpenFails \<and> fst ?run = checkpoint_B
                \<or> word_map_write ?w = DumpFails \<and> fst ?run = checkpoint_B\<lparr>word_map_file := Truncated\<rparr>
                \<or> word_map_write ?w = Written \<and> cache_write ?w = OpenFails
                    \<and> fst ?run = checkpoint_B\<lparr>word_map_file := Content (structured_output word_map)\<rparr>
                \<or> word_map_write ?w = Written \<and> cache_write ?w = DumpFails
                    \<and> fst ?run = checkpoint_B\<lparr>word_map_file := Content (structured_output word_map),
                              cache_file := Truncated\<rparr>))"
    by blast
  with ok wr have "\<exists>word_map c. update_index ?w checkpoint_B = Inr (word_map, c)
        \<and> fst ?run = checkpoint_B\<lparr>word_map_file := Content (structured_output word_map),
                          cache_file := Truncated\<rparr>"
    by auto
  with u k s show ?thesis by blast
qed

subsection \<open>C5: two runs in a row\<close>

text \<open>
  C5 says that a second run on an unchanged folder leaves the files of the first. With
  \<^verbatim>\<open>B.pdf\<close> removed and \<^verbatim>\<open>C.pdf\<close> and \<^verbatim>\<open>D.pdf\<close> added, the first run only adds and keeps
  \<^verbatim>\<open>B.pdf\<close> in the cache; the second run, on the same folder, finds one key too many and
  deletes it: the saved cache of the second run is not that of the first, and the
  token that only \<^verbatim>\<open>B.pdf\<close> held has left the saved index.
\<close>

theorem second_run_changes_files:
  "snd (build_word_map_with_cache (sample_world [''C.pdf'', ''D.pdf'']) checkpoint_B) = Inr True
   \<and> snd (build_word_map_with_cache (sample_world [''C.pdf'', ''D.pdf''])
        (fst (build_word_map_with_cache (sample_world [''C.pdf'', ''D.pdf'']) checkpoint_B)))
       = Inr True
   \<and> cache_file (fst (build_word_map_with_cache (sample_world [''C.pdf'', ''D.pdf'']) checkpoint_B))
       = Content [(''B.pdf'', 1), (''C.pdf'', 1), (''D.pdf'', 1)]
   \<and> cache_file (fst (build_word_map_with_cache (sample_world [''C.pdf'', ''D.pdf''])
        (fst (build_word_map_with_cache (sample_world [''C.pdf'', ''D.pdf'']) checkpoint_B))))
       = Content [(''C.pdf'', 1), (''D.pdf'', 1)]
   \<and> (\<exists>data file_pages.
         word_map_file (fst (build_word_map_with_cache (sample_world [''C.pdf'', ''D.pdf''])
           checkpoint_B)) = Content data
         \<and> data ''y'' = Some file_pages \<and> file_pages ''B.pdf'' = Some [1])
   \<and> (\<exists>data.
         word_map_file (fst (build_word_map_with_cache (sample_world [''C.pdf'', ''D.pdf''])
           (fst (build_word_map_with_cache (sample_world [''C.pdf'', ''D.pdf'']) checkpoint_B))))
           = Content data
         \<and> data ''y'' = None)
   \<and> fst (build_word_map_with_cache (sample_world [''C.pdf'', ''D.pdf''])
        (fst (build_word_map_with_cache (sample_world [''C.pdf'', ''D.pdf'']) checkpoint_B)))
       \<noteq> fst (build_word_map_with_cache (sample_world [''C.pdf'', ''D.pdf'']) checkpoint_B)"
proof -
  let ?w = "sample_world [''C.pdf'', ''D.pdf'']"
  let ?d1 = "fst (build_word_map_with_cache ?w checkpoint_B)"
  let ?d2 = "fst (build_word_map_with_cache ?w ?d1)"
  have r1: "snd (build_word_map_with_cache ?w checkpoint_B) = Inr True"
    by (simp add: run_defs)
  have r2: "snd (build_word_map_with_cache ?w ?d1) = Inr True"
    by (simp add: run_defs)
  have c1: "cache_file ?d1 = Content [(''B.pdf'', 1), (''C.pdf'', 1), (''D.pdf'', 1)]"
    by (simp add: run_defs)
  have c2: "cache_file ?d2 = Content [(''C.pdf'', 1), (''D.pdf'', 1)]"
    by (simp add: run_defs)
  have i1: "\<exists>data file_pages. word_map_file ?d1 = Content data
         \<and> data ''y'' = Some file_pages \<and> file_pages ''B.pdf'' = Some [1]"
    by (simp add: run_defs index_defs)
  have i2: "\<exists>data. word_map_file ?d2 = Content data \<and> data ''y'' = None"
  proof -
    from build_completed[of ?w checkpoint_B ?d1 True] r1
    obtain wm1 c1' where u1: "update_index ?w checkpoint_B = Inr (wm1, c1')"
      and d1: "?d1 = checkpoint_B\<lparr>word_map_file := Content (structured_output wm1),
                                   cache_file := Content c1'\<rparr>"
      by (metis prod.collapse)
    have wm1: "wm1 = update_locations (loaded_word_map [''y'' \<mapsto> [''B.pdf'' \<mapsto> [1]]])
                  (merge_token_maps (map (extract_tokens_from_pdf ?w) [''C.pdf'', ''D.pdf'']))"
      using u1 by (simp add: run_defs)
    have y: "wm1 ''y'' = Some {(''B.pdf'', 1)}"
      unfolding wm1 by (simp add: index_defs sample_world_def)
    have "docs_within (fst ` set c1' \<union> dangling checkpoint_B) wm1"
      by (rule update_index_inv[OF u1])
    from loaded_structured_output[OF this, of "''y''"] y
    have l: "loaded_word_map (structured_output wm1) ''y'' = Some {(''B.pdf'', 1)}"
      by simp
    have f1: "word_map_file ?d1 = Content (structured_output wm1)"
      by (subst d1) simp
    have "update_index ?w ?d1
            = Inr (purge_locations [''B.pdf''] (loaded_word_map (structured_output wm1)),
                   [(''C.pdf'', 1), (''D.pdf'', 1)])"
      using c1 f1
      by (simp add: update_index_def load_cache_def load_existing_word_map_json_def
          check_counts_def check_modified_def pdf_check_deleted_def sample_world_def Let_def)
    then have "word_map_file ?d2
            = Content (structured_output
                (purge_locations [''B.pdf''] (loaded_word_map (structured_output wm1))))"
      by (simp add: build_word_map_with_cache_def save_word_map_json_def save_cache_def
          sample_world_def)
    moreover have "purge_locations [''B.pdf''] (loaded_word_map (structured_output wm1)) ''y''
            = None"
      by (simp add: purge_locations_def l)
    then have "structured_output
            (purge_locations [''B.pdf''] (loaded_word_map (structured_output wm1))) ''y'' = None"
      by (rule structured_output_None)
    ultimately show ?thesis by simp
  qed
  have "cache_file ?d2 \<noteq> cache_file ?d1" unfolding c1 c2 by simp
  then have "?d2 \<noteq> ?d1" by metis
  with r1 r2 c1 c2 i1 i2 show ?thesis by blast
qed

subsection \<open>C6: cold start\<close>

text \<open>
  C6: when there is no \<^verbatim>\<open>word_map.json\<close>, the cache file is absent or can be loaded, the
  folder can be listed, every listed document's modification time can be read and both
  files can be written, the run completes without comparing against the cache; the
  saved index is that of the merge of the extractions of all listed documents, which
  holds for every token the union of the locations the documents give it; and the saved
  cache holds the modification time of every listed document.
\<close>

theorem cold_start_full_index:
  assumes "word_map_file d = Absent" and "load_cache d = Inr c0"
    and "listdir_pdfs w = Some all_pdfs"
    and "\<forall>pdf \<in> set all_pdfs. getmtime w pdf \<noteq> None"
    and "word_map_write w = Written" and "cache_write w = Written"
  shows "\<exists>word_map c'.
     build_word_map_with_cache w d =
       (\<lparr>word_map_file = Content (structured_output word_map), cache_file = Content c'\<rparr>,
        Inr True)
     \<and> word_map = merge_token_maps (map (extract_tokens_from_pdf w) all_pdfs)
     \<and> (\<forall>tok. word_map tok =
           (if \<exists>pdf \<in> set all_pdfs. extract_tokens_from_pdf w pdf tok \<noteq> None
            then Some (\<Union>pdf \<in> set all_pdfs.
                         case extract_tokens_from_pdf w pdf tok of None \<Rightarrow> {} | Some locs \<Rightarrow> locs)
            else None))
     \<and> (\<forall>pdf \<in> set all_pdfs. map_of c' pdf = getmtime w pdf)
     \<and> fst ` set c' = fst ` set c0 \<union> set all_pdfs"
proof -
  let ?wm = "merge_token_maps (map (extract_tokens_from_pdf w) all_pdfs)"
  from full_index_total[OF assms(4)] obtain c' where
    fi: "full_index w all_pdfs c0 = Inr (?wm, c')" and
    rm: "record_mtimes w all_pdfs c0 = Inr c'"
    by blast
  have u: "update_index w d = Inr (?wm, c')"
    using assms(1,2,3) fi by (simp add: update_index_def)
  have b: "build_word_map_with_cache w d =
       (\<lparr>word_map_file = Content (structured_output ?wm), cache_file = Content c'\<rparr>, Inr True)"
    using u assms(5,6)
    by (simp add: build_word_map_with_cache_def save_word_map_json_def save_cache_def)
  have m: "?wm tok =
           (if \<exists>pdf \<in> set all_pdfs. extract_tokens_from_pdf w pdf tok \<noteq> None
            then Some (\<Union>pdf \<in> set all_pdfs.
                         case extract_tokens_from_pdf w pdf tok of None \<Rightarrow> {} | Some locs \<Rightarrow> locs)
            else None)" for tok
    by (simp add: merge_token_maps_apply merged_at_def)
  from b m record_mtimes_recorded[OF rm] record_mtimes_keys[OF rm]
  show ?thesis by blast
qed

text \<open>
  The cold start on a folder of \<^verbatim>\<open>A.pdf\<close> and \<^verbatim>\<open>B.pdf\<close>.
\<close>

theorem cold_start_full_index_witness:
  "word_map_file no_checkpoint = Absent
   \<and> load_cache no_checkpoint = Inr []
   \<and> listdir_pdfs (sample_world [''A.pdf'', ''B.pdf'']) = Some [''A.pdf'', ''B.pdf'']
   \<and> getmtime (sample_world [''A.pdf'', ''B.pdf'']) ''A.pdf'' = Some 1
   \<and> getmtime (sample_world [''A.pdf'', ''B.pdf'']) ''B.pdf'' = Some 1
   \<and> word_map_write (sample_world [''A.pdf'', ''B.pdf'']) = Written
   \<and> cache_write (sample_world [''A.pdf'', ''B.pdf'']) = Written
   \<and> (\<exists>word_map c'.
     build_word_map_with_cache (sample_world [''A.pdf'', ''B.pdf'']) no_checkpoint =
       (\<lparr>word_map_file = Content (structured_output word_map), cache_file = Content c'\<rparr>,
        Inr True)
     \<and> word_map = merge_token_maps
          (map (extract_tokens_from_pdf (sample_world [''A.pdf'', ''B.pdf''])) [''A.pdf'', ''B.pdf''])
     \<and> map_of c' ''A.pdf'' = Some 1 \<and> map_of c' ''B.pdf'' = Some 1
     \<and> fst ` set c' = {''A.pdf'', ''B.pdf''})"
proof -
  let ?w = "sample_world [''A.pdf'', ''B.pdf'']"
  have h: "word_map_file no_checkpoint = Absent" "load_cache no_checkpoint = Inr []"
    "listdir_pdfs ?w = Some [''A.pdf'', ''B.pdf'']"
    "\<forall>pdf \<in> set [''A.pdf'', ''B.pdf'']. getmtime ?w pdf \<noteq> None"
    "word_map_write ?w = Written" "cache_write ?w = Written"
    by (simp_all add: sample_world_def no_checkpoint_def load_cache_def)
  have g: "getmtime ?w ''A.pdf'' = Some 1" "getmtime ?w ''B.pdf'' = Some 1"
    by (simp_all add: sample_world_def)
  from cold_start_full_index[OF h] obtain word_map c' where
    r: "build_word_map_with_cache ?w no_checkpoint =
       (\<lparr>word_map_file = Content (structured_output word_map), cache_file = Content c'\<rparr>,
        Inr True)"
    "word_map = merge_token_maps (map (extract_tokens_from_pdf ?w) [''A.pdf'', ''B.pdf''])"
    "\<forall>pdf \<in> set [''A.pdf'', ''B.pdf'']. map_of c' pdf = getmtime ?w pdf"
    "fst ` set c' = fst ` set ([]::cache) \<union> set [''A.pdf'', ''B.pdf'']"
    by blast
  from r(3) g have "map_of c' ''A.pdf'' = Some 1" "map_of c' ''B.pdf'' = Some 1" by simp_all
  moreover from r(4) have "fst ` set c' = {''A.pdf'', ''B.pdf''}" by simp
  ultimately show ?thesis using h(1,2,3,5,6) g r(1,2) by blast
qed

subsection \<open>C7: additions are a union\<close>

text \<open>
  C7: adding locations to the index is a union. Adding the same data twice gives what
  adding it once gives; adding data whose locations are all in the index leaves the
  index as it is; and a second \<^verbatim>\<open>pdf_check_add\<close> of the same documents on the result of the
  first returns that result.
\<close>

theorem additions_union_semantics:
  "update_locations (update_locations word_map new_data) new_data
     = update_locations word_map new_data
   \<and> ((\<forall>tok locs. new_data tok = Some locs \<longrightarrow> (\<exists>s. word_map tok = Some s \<and> locs \<subseteq> s))
        \<longrightarrow> update_locations word_map new_data = word_map)
   \<and> (\<forall>word_map' c'. pdf_check_add w new_pdfs word_map c = Inr (word_map', c')
        \<longrightarrow> pdf_check_add w new_pdfs word_map' c' = Inr (word_map', c'))"
proof (intro conjI allI impI)
  show "update_locations (update_locations word_map new_data) new_data
     = update_locations word_map new_data" by (rule update_locations_idem)
next
  assume "\<forall>tok locs. new_data tok = Some locs \<longrightarrow> (\<exists>s. word_map tok = Some s \<and> locs \<subseteq> s)"
  then show "update_locations word_map new_data = word_map" by (rule update_locations_present)
next
  fix word_map' c'
  assume h: "pdf_check_add w new_pdfs word_map c = Inr (word_map', c')"
  show "pdf_check_add w new_pdfs word_map' c' = Inr (word_map', c')"
  proof (cases "new_pdfs = []")
    case True
    then show ?thesis by (simp add: pdf_check_add_def)
  next
    case False
    with h have c': "record_mtimes w new_pdfs c = Inr c'"
      and wm': "word_map' = update_locations word_map
                  (merge_token_maps (map (extract_tokens_from_pdf w) new_pdfs))"
      by (auto simp: pdf_check_add_def Let_def split: sum.splits)
    from False record_mtimes_idem[OF c'] show ?thesis
      by (simp add: pdf_check_add_def wm' update_locations_idem)
  qed
qed

text \<open>
  Adding a location that is there, and adding \<^verbatim>\<open>B.pdf\<close> twice.
\<close>

theorem additions_union_semantics_witness:
  "update_locations [''y'' \<mapsto> {(''A.pdf'', 1), (''B.pdf'', 1)}] [''y'' \<mapsto> {(''B.pdf'', 1)}]
     = [''y'' \<mapsto> {(''A.pdf'', 1), (''B.pdf'', 1)}]
   \<and> pdf_check_add (sample_world [''B.pdf'']) [''B.pdf''] [''y'' \<mapsto> {(''B.pdf'', 1)}] []
       = Inr ([''y'' \<mapsto> {(''B.pdf'', 1)}], [(''B.pdf'', 1)])
   \<and> pdf_check_add (sample_world [''B.pdf'']) [''B.pdf''] [''y'' \<mapsto> {(''B.pdf'', 1)}]
        [(''B.pdf'', 1)]
       = Inr ([''y'' \<mapsto> {(''B.pdf'', 1)}], [(''B.pdf'', 1)])"
proof -
  let ?wm = "[''y'' \<mapsto> {(''A.pdf'', 1::nat), (''B.pdf'', 1)}]"
  let ?nd = "[''y'' \<mapsto> {(''B.pdf'', 1::nat)}]"
  let ?w = "sample_world [''B.pdf'']"
  have p: "\<forall>tok locs. ?nd tok = Some locs \<longrightarrow> (\<exists>s. ?wm tok = Some s \<and> locs \<subseteq> s)"
    by (simp split: if_splits)
  have m: "update_locations ?nd (merge_token_maps [?nd]) = ?nd"
    by (rule ext) (simp add: update_locations_apply merge_token_maps_apply merged_at_def)
  have a: "pdf_check_add ?w [''B.pdf''] ?nd [] = Inr (?nd, [(''B.pdf'', 1)])"
  proof -
    have "record_mtimes ?w [''B.pdf''] [] = Inr [(''B.pdf'', 1)]"
      by (simp add: sample_world_def)
    then show ?thesis
      unfolding pdf_check_add_def Let_def by (simp only: list.map extract_B m) simp
  qed
  from additions_union_semantics[of ?wm ?nd ?w "[''B.pdf'']" "[]"] p
  have "update_locations ?wm ?nd = ?wm" by blast
  moreover from additions_union_semantics[of ?nd ?nd ?w "[''B.pdf'']" "[]"] a
  have "pdf_check_add ?w [''B.pdf''] ?nd [(''B.pdf'', 1)] = Inr (?nd, [(''B.pdf'', 1)])"
    by blast
  ultimately show ?thesis using a by blast
qed

subsection \<open>C8: the pages of the saved index\<close>

text \<open>
  C8: in the file written by \<^verbatim>\<open>save_word_map_json\<close>, every token maps documents to lists
  of pages that are sorted in ascending order and without duplicates, and that hold
  the pages of the document for the token in the index.
\<close>

theorem saved_pages_sorted_distinct:
  assumes "save_word_map_json w word_map d = (d', Inr ())"
  shows "\<exists>data. word_map_file d' = Content data \<and>
     (\<forall>tok file_pages doc pages. data tok = Some file_pages \<and> file_pages doc = Some pages \<longrightarrow>
        sorted pages \<and> distinct pages \<and>
        (\<forall>locs. word_map tok = Some locs \<and> finite locs \<longrightarrow>
           set pages = {page. (doc, page) \<in> locs}))"
proof -
  from assms have d': "word_map_file d' = Content (structured_output word_map)"
    by (auto simp: save_word_map_json_def split: write_outcome.splits)
  have "sorted pages \<and> distinct pages \<and>
        (\<forall>locs. word_map tok = Some locs \<and> finite locs \<longrightarrow> set pages = {page. (doc, page) \<in> locs})"
    if h: "structured_output word_map tok = Some file_pages" "file_pages doc = Some pages"
    for tok file_pages doc pages
  proof -
    from h(1) obtain l where l: "word_map tok = Some l"
      and fp: "file_pages = (\<lambda>file. if file \<in> fst ` l
                 then Some (sorted_list_of_set (pages_of l file)) else None)"
      by (auto simp: structured_output_def split: option.splits if_splits)
    from h(2) have p: "pages = sorted_list_of_set (pages_of l doc)"
      by (auto simp: fp split: if_splits)
    have eq: "pages_of l doc = {page. (doc, page) \<in> l}" by (force simp: pages_of_def)
    have "set pages = {page. (doc, page) \<in> l}" if "finite l"
      unfolding p using finite_pages_of[OF that, of doc] by (simp add: eq)
    moreover have "sorted pages" "distinct pages" unfolding p by simp_all
    ultimately show ?thesis using l by auto
  qed
  with d' show ?thesis by blast
qed

text \<open>
  Saving an index where \<^verbatim>\<open>B.pdf\<close> has the pages 2 and 1 of a token.
\<close>

theorem saved_pages_sorted_distinct_witness:
  "save_word_map_json (sample_world []) [''y'' \<mapsto> {(''B.pdf'', 2), (''A.pdf'', 1), (''B.pdf'', 1)}]
      no_checkpoint
     = (\<lparr>word_map_file =
              Content (structured_output [''y'' \<mapsto> {(''B.pdf'', 2), (''A.pdf'', 1), (''B.pdf'', 1)}]),
            cache_file = Absent\<rparr>, Inr ())
   \<and> (\<exists>file_pages.
        structured_output [''y'' \<mapsto> {(''B.pdf'', 2), (''A.pdf'', 1), (''B.pdf'', 1)}] ''y''
          = Some file_pages
        \<and> file_pages ''B.pdf'' = Some [1, 2] \<and> file_pages ''A.pdf'' = Some [1])
   \<and> (\<exists>data.
        word_map_file \<lparr>word_map_file =
              Content (structured_output [''y'' \<mapsto> {(''B.pdf'', 2), (''A.pdf'', 1), (''B.pdf'', 1)}]),
            cache_file = Absent\<rparr> = Content data
        \<and> (\<forall>tok file_pages doc pages.
              data tok = Some file_pages \<and> file_pages doc = Some pages \<longrightarrow>
              sorted pages \<and> distinct pages \<and>
              (\<forall>locs. [''y'' \<mapsto> {(''B.pdf'', 2), (''A.pdf'', 1), (''B.pdf'', 1)}] tok = Some locs
                  \<and> finite locs \<longrightarrow>
                 set pages = {page. (doc, page) \<in> locs})))"
proof -
  let ?wm = "[''y'' \<mapsto> {(''B.pdf'', 2::nat), (''A.pdf'', 1), (''B.pdf'', 1)}]"
  let ?d' = "\<lparr>word_map_file = Content (structured_output ?wm), cache_file = Absent\<rparr>"
  have s: "save_word_map_json (sample_world []) ?wm no_checkpoint = (?d', Inr ())"
    by (simp add: save_word_map_json_def sample_world_def no_checkpoint_def)
  have e: "\<exists>file_pages. structured_output ?wm ''y'' = Some file_pages
        \<and> file_pages ''B.pdf'' = Some [1, 2] \<and> file_pages ''A.pdf'' = Some [1]"
    by (simp add: structured_output_def pages_of_empty pages_of_insert)
  from saved_pages_sorted_distinct[OF s] s e show ?thesis by blast
qed

subsection \<open>C9: merging does not depend on the order\<close>

text \<open>
  C9: \<^verbatim>\<open>merge_token_maps\<close> returns the same map for every permutation of its list of maps,
  so the order in which the extractions complete does not show in the index.
\<close>

theorem merge_token_maps_order_independent:
  assumes "mset permuted = mset all_maps"
  shows "merge_token_maps permuted = merge_token_maps all_maps"
proof -
  let ?step = "\<lambda>token_map merged. update_locations merged token_map"
  have "?step a \<circ> ?step b = ?step b \<circ> ?step a" for a b
    by (rule ext) (simp add: update_locations_commute)
  then have "fold ?step permuted = fold ?step all_maps"
    using assms by (intro fold_multiset_equiv) auto
  then show ?thesis by (simp add: merge_token_maps_def)
qed

text \<open>
  Two maps merged in both orders.
\<close>

theorem merge_token_maps_order_independent_witness:
  "mset [[''y'' \<mapsto> {(''B.pdf'', 1)}], [''x'' \<mapsto> {(''A.pdf'', 1)}, ''y'' \<mapsto> {(''A.pdf'', 1)}]]
     = mset [[''x'' \<mapsto> {(''A.pdf'', 1)}, ''y'' \<mapsto> {(''A.pdf'', 1)}], [''y'' \<mapsto> {(''B.pdf'', 1::nat)}]]
   \<and> merge_token_maps [[''y'' \<mapsto> {(''B.pdf'', 1)}], [''x'' \<mapsto> {(''A.pdf'', 1)}, ''y'' \<mapsto> {(''A.pdf'', 1)}]]
     = merge_token_maps [[''x'' \<mapsto> {(''A.pdf'', 1)}, ''y'' \<mapsto> {(''A.pdf'', 1)}], [''y'' \<mapsto> {(''B.pdf'', 1)}]]
   \<and> merge_token_maps [[''y'' \<mapsto> {(''B.pdf'', 1)}], [''x'' \<mapsto> {(''A.pdf'', 1)}, ''y'' \<mapsto> {(''A.pdf'', 1)}]] ''y''
     = Some {(''A.pdf'', 1), (''B.pdf'', 1)}"
proof -
  let ?a = "[''x'' \<mapsto> {(''A.pdf'', 1::nat)}, ''y'' \<mapsto> {(''A.pdf'', 1)}]"
  let ?b = "[''y'' \<mapsto> {(''B.pdf'', 1::nat)}]"
  have p: "mset [?b, ?a] = mset [?a, ?b]" by (simp add: add.commute)
  have v: "merge_token_maps [?b, ?a] ''y'' = Some {(''A.pdf'', 1), (''B.pdf'', 1)}"
    by (auto simp: merge_token_maps_apply merged_at_def)
  from merge_token_maps_order_independent[OF p] p v show ?thesis by blast
qed

subsection \<open>C10: KeyError in pdf\_check\_deleted\<close>

text \<open>
  C10: \<^verbatim>\<open>pdf_check_deleted\<close> deletes every given name from the cache. When one of the names
  is not a key of the cache it raises \<^verbatim>\<open>KeyError\<close>; when the names are keys of the cache it
  returns, and the keys left are the others. The scan for modified documents passes
  such a name whenever it selects a document that is not in the cache, and the run ends
  with \<^verbatim>\<open>KeyError\<close>: so it does for \<^verbatim>\<open>C.pdf\<close> put in the place of \<^verbatim>\<open>B.pdf\<close>.
\<close>

theorem pdf_check_deleted_key_error:
  "(\<not> set deleted_pdfs \<subseteq> fst ` set c \<longrightarrow>
      pdf_check_deleted deleted_pdfs word_map c = Inl KeyError)
   \<and> (distinct deleted_pdfs \<and> set deleted_pdfs \<subseteq> fst ` set c \<longrightarrow>
        (\<exists>word_map' c'. pdf_check_deleted deleted_pdfs word_map c = Inr (word_map', c')
           \<and> fst ` set c' = fst ` set c - set deleted_pdfs))
   \<and> (\<forall>modified_pdfs. scan_modified w c all_pdfs = Inr modified_pdfs
          \<and> \<not> set modified_pdfs \<subseteq> fst ` set c \<longrightarrow>
        check_modified w all_pdfs word_map c = Inl KeyError)
   \<and> load_cache checkpoint_B = Inr [(''B.pdf'', 1)]
   \<and> scan_modified (sample_world [''C.pdf'']) [(''B.pdf'', 1)] [''C.pdf'']
       = Inr [''C.pdf'']
   \<and> build_word_map_with_cache (sample_world [''C.pdf'']) checkpoint_B
       = (checkpoint_B, Inl KeyError)"
proof (intro conjI allI impI)
  assume "\<not> set deleted_pdfs \<subseteq> fst ` set c"
  then show "pdf_check_deleted deleted_pdfs word_map c = Inl KeyError"
    by (rule pdf_check_deleted_missing)
next
  assume h: "distinct deleted_pdfs \<and> set deleted_pdfs \<subseteq> fst ` set c"
  then obtain c' where "del_all deleted_pdfs c = Inr c'"
    "fst ` set c' = fst ` set c - set deleted_pdfs"
    using del_all_present[of deleted_pdfs c] by blast
  then show "\<exists>word_map' c'. pdf_check_deleted deleted_pdfs word_map c = Inr (word_map', c')
           \<and> fst ` set c' = fst ` set c - set deleted_pdfs"
    by (cases "deleted_pdfs = []") (auto simp: pdf_check_deleted_def)
next
  fix modified_pdfs
  assume h: "scan_modified w c all_pdfs = Inr modified_pdfs \<and> \<not> set modified_pdfs \<subseteq> fst ` set c"
  then have "modified_pdfs \<noteq> []" by auto
  with h show "check_modified w all_pdfs word_map c = Inl KeyError"
    by (simp add: check_modified_def pdf_check_deleted_missing)
next
  show "load_cache checkpoint_B = Inr [(''B.pdf'', 1)]"
    by (simp add: run_defs)
next
  show "scan_modified (sample_world [''C.pdf'']) [(''B.pdf'', 1)] [''C.pdf'']
       = Inr [''C.pdf'']"
    by (simp add: run_defs)
next
  show "build_word_map_with_cache (sample_world [''C.pdf'']) checkpoint_B
       = (checkpoint_B, Inl KeyError)"
    by (simp add: run_defs)
qed

text \<open>
  A name that is missing, a name that is there, and the scan that selects \<^verbatim>\<open>C.pdf\<close>.
\<close>

theorem pdf_check_deleted_key_error_witness:
  "\<not> set [''C.pdf''] \<subseteq> fst ` set [(''B.pdf'', 1::int)]
   \<and> pdf_check_deleted [''C.pdf''] [''y'' \<mapsto> {(''B.pdf'', 1)}] [(''B.pdf'', 1)] = Inl KeyError
   \<and> distinct [''B.pdf''] \<and> set [''B.pdf''] \<subseteq> fst ` set [(''B.pdf'', 1::int)]
   \<and> (\<exists>word_map' c'.
        pdf_check_deleted [''B.pdf''] [''y'' \<mapsto> {(''B.pdf'', 1)}] [(''B.pdf'', 1)]
          = Inr (word_map', c')
        \<and> fst ` set c' = fst ` set [(''B.pdf'', 1::int)] - set [''B.pdf''])
   \<and> scan_modified (sample_world [''C.pdf'']) [(''B.pdf'', 1)] [''C.pdf''] = Inr [''C.pdf'']
   \<and> check_modified (sample_world [''C.pdf'']) [''C.pdf''] [''y'' \<mapsto> {(''B.pdf'', 1)}]
        [(''B.pdf'', 1)] = Inl KeyError"
proof -
  let ?wm = "[''y'' \<mapsto> {(''B.pdf'', 1::nat)}]"
  let ?c = "[(''B.pdf'', 1::int)]"
  let ?w = "sample_world [''C.pdf'']"
  have n: "\<not> set [''C.pdf''] \<subseteq> fst ` set ?c" by simp
  have p: "distinct [''B.pdf''] \<and> set [''B.pdf''] \<subseteq> fst ` set ?c" by simp
  have s: "scan_modified ?w ?c [''C.pdf''] = Inr [''C.pdf'']"
    by (simp add: sample_world_def)
  from pdf_check_deleted_key_error[of "[''C.pdf'']" ?c ?wm ?w "[''C.pdf'']"] n s
  have a: "pdf_check_deleted [''C.pdf''] ?wm ?c = Inl KeyError"
    and b: "check_modified ?w [''C.pdf''] ?wm ?c = Inl KeyError"
    by blast+
  from pdf_check_deleted_key_error[of "[''B.pdf'']" ?c ?wm ?w "[''C.pdf'']"] p
  have "\<exists>word_map' c'. pdf_check_deleted [''B.pdf''] ?wm ?c = Inr (word_map', c')
        \<and> fst ` set c' = fst ` set ?c - set [''B.pdf'']"
    by blast
  with a b n p s show ?thesis by blast
qed

end
